theory Spec2Isabelle
  imports Main
begin

section \<open>Data model of the Ares controller\<close>

text \<open>
  The controller of \<^verbatim>\<open>gupb/controller/ares/ares_controller.py\<close> keeps a map of the arena
  (class \<^verbatim>\<open>Map\<close>), searches it breadth first (\<^verbatim>\<open>Map.shortestPath\<close>) and picks one action
  per turn (\<^verbatim>\<open>KnowledgeBase.choice\<close>). Python exceptions are values of type \<open>error\<close>;
  a function that can raise returns \<open>error + 'a\<close> with \<open>Inl\<close> the exception.
\<close>

datatype error = IndexError | KeyError | AttributeError | TypeError | WrongTargetFace

definition ebind :: "error + 'a \<Rightarrow> ('a \<Rightarrow> error + 'b) \<Rightarrow> error + 'b" where
  "ebind r f = (case r of Inl e \<Rightarrow> Inl e | Inr v \<Rightarrow> f v)"

text \<open>\<^verbatim>\<open>coordinates.Coords\<close>: a pair of Python integers, added componentwise.\<close>

type_synonym coord = "int \<times> int"

definition coord_add :: "coord \<Rightarrow> coord \<Rightarrow> coord" where
  "coord_add a b = (fst a + fst b, snd a + snd b)"

datatype Action = TURN_LEFT | TURN_RIGHT | STEP_FORWARD | ATTACK | DO_NOTHING

datatype Facing = UP | DOWN | LEFT | RIGHT

text \<open>
  Modelled from the spec: the unit direction vector of a facing (\<^verbatim>\<open>characters.Facing.value\<close>,
  declared in the game library and not in the controller's file). The spec gives every
  facing an "associated unit direction vector"; the vectors are the ones
  \<^verbatim>\<open>getTargetFace\<close> inverts: a step to a smaller y is UP, a step to a smaller x is LEFT.
\<close>

fun facing_value :: "Facing \<Rightarrow> coord" where
  "facing_value UP = (0, -1)"
| "facing_value DOWN = (0, 1)"
| "facing_value LEFT = (-1, 0)"
| "facing_value RIGHT = (1, 0)"

datatype ChampionDescription = ChampionDescription (facing: Facing)

text \<open>
  A cell of the map holds \<^verbatim>\<open>None\<close>, a \<^verbatim>\<open>tiles.Tile\<close> loaded with the arena (static
  passability and the weapon lying on it, no champion, consumable or effect) or a
  \<^verbatim>\<open>tiles.TileDescription\<close> seen by the champion (type tag, weapon name, champion,
  consumable name, effect tags). The two classes have different attributes. A loaded
  tile is an instance of a subclass of \<^verbatim>\<open>tiles.Tile\<close> (Land, Sea, Wall, Menhir);
  \<^verbatim>\<open>tiles.Tile\<close> itself is abstract and has no instance of its own.
\<close>

datatype tile =
    Tile (passable: bool) (t_loot: "string option")
  | TileDescription (td_type: string) (td_loot: "string option")
      (td_character: "ChampionDescription option") (td_consumable: "string option")
      (td_effects: "string list")

fun attr_character :: "tile \<Rightarrow> ChampionDescription option" where
  "attr_character (Tile p l) = None"
| "attr_character (TileDescription ty l c k es) = c"

fun attr_consumable :: "tile \<Rightarrow> string option" where
  "attr_consumable (Tile p l) = None"
| "attr_consumable (TileDescription ty l c k es) = k"

fun attr_effects :: "tile \<Rightarrow> string list" where
  "attr_effects (Tile p l) = []"
| "attr_effects (TileDescription ty l c k es) = es"

fun attr_type :: "tile \<Rightarrow> error + string" where
  "attr_type (Tile p l) = Inl AttributeError"
| "attr_type (TileDescription ty l c k es) = Inr ty"

fun attr_passable :: "tile \<Rightarrow> error + bool" where
  "attr_passable (Tile p l) = Inr p"
| "attr_passable (TileDescription ty l c k es) = Inl AttributeError"

fun attr_description_loot :: "tile \<Rightarrow> error + string option" where
  "attr_description_loot (Tile p l) = Inr l"
| "attr_description_loot (TileDescription ty l c k es) = Inl AttributeError"

subsection \<open>Python lists\<close>

text \<open>
  \<^verbatim>\<open>xs[i]\<close>: a negative index counts from the end, an index out of range raises
  IndexError. \<open>py_index\<close> is the position that is read or written.
\<close>

definition py_index :: "'a list \<Rightarrow> int \<Rightarrow> nat option" where
  "py_index xs i =
     (let n = int (length xs); j = (if i < 0 then n + i else i)
      in if 0 \<le> j \<and> j < n then Some (nat j) else None)"

definition getitem :: "'a list \<Rightarrow> int \<Rightarrow> error + 'a" where
  "getitem xs i = (case py_index xs i of None \<Rightarrow> Inl IndexError | Some k \<Rightarrow> Inr (xs ! k))"

definition setitem :: "'a list \<Rightarrow> int \<Rightarrow> 'a \<Rightarrow> error + 'a list" where
  "setitem xs i v = (case py_index xs i of None \<Rightarrow> Inl IndexError | Some k \<Rightarrow> Inr (xs[k := v]))"

text \<open>\<^verbatim>\<open>g[x][y]\<close> and \<^verbatim>\<open>g[x][y] = v\<close> on a list of rows (the rows are distinct objects).\<close>

definition getitem2 :: "'a list list \<Rightarrow> coord \<Rightarrow> error + 'a" where
  "getitem2 g c = ebind (getitem g (fst c)) (\<lambda>row. getitem row (snd c))"

definition setitem2 :: "'a list list \<Rightarrow> coord \<Rightarrow> 'a \<Rightarrow> error + 'a list list" where
  "setitem2 g c v =
     ebind (getitem g (fst c)) (\<lambda>row.
     ebind (setitem row (snd c) v) (\<lambda>row'. setitem g (fst c) row'))"

subsection \<open>Tiles\<close>

text \<open>\<^verbatim>\<open>tileIsMist(tile)\<close>: reading \<^verbatim>\<open>tile.effects\<close> of \<^verbatim>\<open>None\<close> raises.\<close>

definition tileIsMist :: "tile option \<Rightarrow> error + bool" where
  "tileIsMist t = (case t of None \<Rightarrow> Inl AttributeError
                   | Some t' \<Rightarrow> Inr (''mist'' \<in> set (attr_effects t')))"

text \<open>
  \<^verbatim>\<open>tilePassable(tile)\<close> compares \<^verbatim>\<open>type(tile)\<close> with the two classes exactly. For a tile
  loaded with the arena \<^verbatim>\<open>type(tile)\<close> is the subclass, so both tests
  \<^verbatim>\<open>type(tile) == tiles.TileDescription\<close> and \<^verbatim>\<open>type(tile) == tiles.Tile\<close> are false and the
  function falls through to \<^verbatim>\<open>return False\<close>, whatever \<^verbatim>\<open>tile.passable\<close> is: only a tile
  that was observed, of type land or menhir, is passable.
\<close>

fun tilePassable :: "tile option \<Rightarrow> bool" where
  "tilePassable (Some (TileDescription ty l c k es)) = (ty \<in> set [''land'', ''menhir''])"
| "tilePassable (Some (Tile p l)) = False"
| "tilePassable None = False"

subsection \<open>The map\<close>

text \<open>
  The fields of class \<^verbatim>\<open>Map\<close> that are read after construction. \<open>mapGrid\<close> is the field
  \<^verbatim>\<open>map\<close>: a list of \<^verbatim>\<open>MAPSIZE[0]\<close> rows of \<^verbatim>\<open>MAPSIZE[1]\<close> cells, indexed \<^verbatim>\<open>map[x][y]\<close>.
\<close>

record ArenaMap =
  MAPSIZE :: "int \<times> int"
  mapGrid :: "tile option list list"
  opponentsAlive :: int
  description :: "ChampionDescription option"
  position :: "coord option"
  menhir :: "coord option"

text \<open>
  Modelled from the spec: the loaded arena (\<^verbatim>\<open>arenas.Arena.load\<close>, game library): the static
  layout, a dictionary from coordinate to static tile in insertion order, and its size.
\<close>

record Arena =
  terrain :: "(coord \<times> tile) list"
  arena_size :: "int \<times> int"

fun initMap_fill :: "tile option list list \<Rightarrow> (coord \<times> tile) list \<Rightarrow> error + tile option list list" where
  "initMap_fill g [] = Inr g"
| "initMap_fill g ((c, t) # rest) = ebind (setitem2 g c (Some t)) (\<lambda>g'. initMap_fill g' rest)"

definition initMap :: "int \<times> int \<Rightarrow> (coord \<times> tile) list \<Rightarrow> error + tile option list list" where
  "initMap sz ter = initMap_fill (replicate (nat (fst sz)) (replicate (nat (snd sz)) None)) ter"

definition Map_init :: "Arena \<Rightarrow> error + ArenaMap" where
  "Map_init a = ebind (initMap (arena_size a) (terrain a)) (\<lambda>g.
     Inr \<lparr> MAPSIZE = arena_size a, mapGrid = g, opponentsAlive = 0, description = None,
           position = None, menhir = None \<rparr>)"

text \<open>
  \<^verbatim>\<open>characters.ChampionKnowledge\<close>: the observation of one turn. \<^verbatim>\<open>visible_tiles\<close> is a
  dictionary of TileDescriptions, kept here in its iteration order.
\<close>

datatype TileDesc = TileDesc (d_type: string) (d_loot: "string option")
  (d_character: "ChampionDescription option") (d_consumable: "string option")
  (d_effects: "string list")

fun as_tile :: "TileDesc \<Rightarrow> tile" where
  "as_tile (TileDesc ty l c k es) = TileDescription ty l c k es"

record ChampionKnowledge =
  ck_position :: coord
  no_of_champions_alive :: int
  visible_tiles :: "(coord \<times> TileDesc) list"

text \<open>
  The loop of \<^verbatim>\<open>Map.update\<close>. A write out of range raises in the middle of the loop, with
  the tiles before it already written: the map at that moment is returned with the error.
\<close>

fun update_tiles :: "ArenaMap \<Rightarrow> (coord \<times> TileDesc) list \<Rightarrow> error option \<times> ArenaMap" where
  "update_tiles m [] = (None, m)"
| "update_tiles m ((c, t) # rest) =
     (case setitem2 (mapGrid m) c (Some (as_tile t)) of
        Inl e \<Rightarrow> (Some e, m)
      | Inr g \<Rightarrow>
          update_tiles
            (if menhir m = None \<and> d_type t = ''menhir''
             then m\<lparr>mapGrid := g, menhir := Some c\<rparr> else m\<lparr>mapGrid := g\<rparr>)
            rest)"

definition Map_update :: "ArenaMap \<Rightarrow> ChampionKnowledge \<Rightarrow> error option \<times> ArenaMap" where
  "Map_update m k =
     (let m1 = m\<lparr>position := Some (ck_position k)\<rparr> in
      case map_of (visible_tiles k) (ck_position k) of
        None \<Rightarrow> (Some KeyError, m1)
      | Some own \<Rightarrow>
          update_tiles
            (m1\<lparr>description := d_character own,
                opponentsAlive := no_of_champions_alive k - 1\<rparr>)
            (visible_tiles k))"


definition isInMap :: "ArenaMap \<Rightarrow> coord \<Rightarrow> bool" where
  "isInMap m c = (fst c < fst (MAPSIZE m) \<and> fst c \<ge> 0 \<and> snd c < snd (MAPSIZE m) \<and> snd c \<ge> 0)"

text \<open>
  \<^verbatim>\<open>getNeighbours\<close>: the four adjacent coordinates in the order +x, -x, +y, -y; one is kept
  when it is in the map and its tile is passable and not in the mist, or the mode is not
  the empty string. \<^verbatim>\<open>tileIsMist\<close> is only called on a passable tile (\<^verbatim>\<open>and\<close> is lazy).
\<close>

definition neighbour_ok :: "ArenaMap \<Rightarrow> string \<Rightarrow> coord \<Rightarrow> error + bool" where
  "neighbour_ok m mode new =
     (if isInMap m new then
        ebind (getitem2 (mapGrid m) new) (\<lambda>cell.
          if tilePassable cell
          then ebind (tileIsMist cell) (\<lambda>mist. Inr (\<not> mist \<or> mode \<noteq> []))
          else Inr (mode \<noteq> []))
      else Inr False)"

fun filter_err :: "('a \<Rightarrow> error + bool) \<Rightarrow> 'a list \<Rightarrow> error + 'a list" where
  "filter_err f [] = Inr []"
| "filter_err f (x # xs) =
     ebind (f x) (\<lambda>b. ebind (filter_err f xs) (\<lambda>ys. Inr (if b then x # ys else ys)))"

definition getNeighbours :: "ArenaMap \<Rightarrow> coord \<Rightarrow> string \<Rightarrow> error + coord list" where
  "getNeighbours m root mode =
     filter_err (neighbour_ok m mode)
       [(fst root + 1, snd root), (fst root - 1, snd root),
        (fst root, snd root + 1), (fst root, snd root - 1)]"

subsection \<open>From a path of coordinates to actions\<close>

definition getTargetFace :: "coord \<Rightarrow> coord \<Rightarrow> error + Facing" where
  "getTargetFace X Y =
     (let x = fst X - fst Y; y = snd X - snd Y in
      if x = 0 then Inr (if y > 0 then UP else DOWN)
      else if y \<noteq> 0 then Inl WrongTargetFace
      else Inr (if x > 0 then LEFT else RIGHT))"

definition dirChange :: "coord \<Rightarrow> Facing \<Rightarrow> coord \<Rightarrow> error + (Action list \<times> Facing)" where
  "dirChange current face step =
     ebind (getTargetFace current step) (\<lambda>target_face.
       if target_face = face then Inr ([], face)
       else if (target_face \<in> set [UP, DOWN] \<and> face \<in> set [UP, DOWN])
             \<or> (target_face \<in> set [RIGHT, LEFT] \<and> face \<in> set [RIGHT, LEFT])
       then Inr ([TURN_RIGHT, TURN_RIGHT], target_face)
       else if (face, target_face) \<in> set [(UP, RIGHT), (RIGHT, DOWN), (DOWN, LEFT), (LEFT, UP)]
       then Inr ([TURN_RIGHT], target_face)
       else Inr ([TURN_LEFT], target_face))"

fun getActions_loop :: "coord \<Rightarrow> Facing \<Rightarrow> coord list \<Rightarrow> Action list \<Rightarrow> error + Action list" where
  "getActions_loop current_pos current_face [] actions = Inr actions"
| "getActions_loop current_pos current_face (next_pos # path) actions =
     ebind (dirChange current_pos current_face next_pos) (\<lambda>(dirs, face').
       getActions_loop next_pos face' path (actions @ dirs @ [STEP_FORWARD]))"

definition getActions :: "ArenaMap \<Rightarrow> coord \<Rightarrow> coord list \<Rightarrow> error + Action list" where
  "getActions m pos path =
     (case description m of
        None \<Rightarrow> Inl AttributeError
      | Some d \<Rightarrow> getActions_loop pos (facing d) path [])"

subsection \<open>Goals of a search\<close>

text \<open>
  The kinds of target that \<^verbatim>\<open>targetFound\<close> tells apart by their Python type: a string
  (only \<^verbatim>\<open>'passable'\<close> is recognised), a coordinate, and the descriptions of a tile type,
  a weapon, a consumable and an effect (each carries one name).
\<close>

datatype target =
    TStr string
  | TCoords coord
  | TTileDescription string
  | TWeaponDescription string
  | TConsumableDescription string
  | TEffectDescription string

definition need_tile :: "tile option \<Rightarrow> error + tile" where
  "need_tile t = (case t of None \<Rightarrow> Inl AttributeError | Some t' \<Rightarrow> Inr t')"

fun targetFound :: "ArenaMap \<Rightarrow> coord \<Rightarrow> target \<Rightarrow> error + bool" where
  "targetFound m v (TStr s) =
     ebind (getitem2 (mapGrid m) v) (\<lambda>cell.
       if s = ''passable'' then
         ebind (need_tile cell) (\<lambda>t. ebind (attr_passable t) (\<lambda>p.
           if p then ebind (tileIsMist cell) (\<lambda>mist. Inr (\<not> mist)) else Inr False))
       else Inr False)"
| "targetFound m v (TCoords c) =
     (if fst v = fst c \<and> snd v = snd c then Inr True
      else ebind (getitem2 (mapGrid m) v) (\<lambda>cell. Inr False))"
| "targetFound m v (TTileDescription ty) =
     ebind (getitem2 (mapGrid m) v) (\<lambda>cell.
       ebind (need_tile cell) (\<lambda>t. ebind (attr_type t) (\<lambda>ty'. Inr (ty' = ty))))"
| "targetFound m v (TWeaponDescription n) =
     ebind (getitem2 (mapGrid m) v) (\<lambda>cell.
       ebind (need_tile cell) (\<lambda>t. ebind (attr_description_loot t) (\<lambda>l. Inr (l = Some n))))"
| "targetFound m v (TConsumableDescription n) =
     ebind (getitem2 (mapGrid m) v) (\<lambda>cell.
       ebind (need_tile cell) (\<lambda>t. Inr (attr_consumable t = Some n)))"
| "targetFound m v (TEffectDescription ty) =
     ebind (getitem2 (mapGrid m) v) (\<lambda>cell.
       ebind (need_tile cell) (\<lambda>t. Inr (ty \<in> set (attr_effects t))))"

subsection \<open>Breadth-first search\<close>

text \<open>
  A cell of the local table \<^verbatim>\<open>Visited\<close> holds \<^verbatim>\<open>None\<close> (the map has no tile there), \<^verbatim>\<open>0\<close>
  (a tile, not reached yet) or the coordinate the cell was reached from.
\<close>

datatype visited = VNone | VZero | VParent coord

fun mapM_err :: "('a \<Rightarrow> error + 'b) \<Rightarrow> 'a list \<Rightarrow> error + 'b list" where
  "mapM_err f [] = Inr []"
| "mapM_err f (x # xs) = ebind (f x) (\<lambda>y. ebind (mapM_err f xs) (\<lambda>ys. Inr (y # ys)))"

text \<open>\<^verbatim>\<open>0 if self.map[i][j] is not None else None\<close>, for every cell of the map.\<close>

definition fresh_cell :: "tile option \<Rightarrow> visited" where
  "fresh_cell cell = (if cell \<noteq> None then VZero else VNone)"

definition Visited_init :: "ArenaMap \<Rightarrow> error + visited list list" where
  "Visited_init m =
     mapM_err (\<lambda>i.
       mapM_err (\<lambda>j. ebind (getitem2 (mapGrid m) (i, j)) (\<lambda>cell. Inr (fresh_cell cell)))
         (map int [0..<nat (snd (MAPSIZE m))]))
       (map int [0..<nat (fst (MAPSIZE m))])"

text \<open>
  The loop that walks the parents back from the cell found:
  \<^verbatim>\<open>while Visited[v.x][v.y] is not v: path.append(Visited[v.x][v.y]); v = Visited[v.x][v.y]\<close>.
  Nothing bounds it in the source, so it is a partial function and \<open>None\<close> is the loop
  that never ends. Only the root is stored in its own cell, and it is the stored object
  itself, so the identity test is an equality of coordinates. A cell that holds \<^verbatim>\<open>0\<close> or
  \<^verbatim>\<open>None\<close> becomes \<^verbatim>\<open>v\<close> and the next \<^verbatim>\<open>v.x\<close> raises.
\<close>

partial_function (option) walk :: "visited list list \<Rightarrow> coord \<Rightarrow> coord list \<Rightarrow> (error + coord list) option" where
  "walk Visited v path =
     (case getitem2 Visited v of
        Inl e \<Rightarrow> Some (Inl e)
      | Inr VNone \<Rightarrow> Some (Inl AttributeError)
      | Inr VZero \<Rightarrow> Some (Inl AttributeError)
      | Inr (VParent p) \<Rightarrow> if p = v then Some (Inr path) else walk Visited p (path @ [p]))"

declare walk.simps [code]

text \<open>The loop over the neighbours of the cell popped: \<^verbatim>\<open>if Visited[p.x][p.y] == 0: ...\<close>.\<close>

fun visit :: "visited list list \<Rightarrow> coord list \<Rightarrow> coord \<Rightarrow> coord list
    \<Rightarrow> error + (visited list list \<times> coord list)" where
  "visit Visited Q v [] = Inr (Visited, Q)"
| "visit Visited Q v (p # ps) =
     ebind (getitem2 Visited p) (\<lambda>cell.
       if cell = VZero
       then ebind (setitem2 Visited p (VParent v)) (\<lambda>Visited'. visit Visited' (Q @ [p]) v ps)
       else visit Visited Q v ps)"

text \<open>
  The main loop of \<^verbatim>\<open>shortestPath\<close>. \<open>r\<close> counts the cells popped. The last argument is
  not in the source: it collects the cells popped, in order, and is returned beside the
  result so that properties of the search can speak of the cells it expanded.
\<close>

type_synonym search_result = "error + (Action list \<times> coord option)"

definition within_radius :: "int option \<Rightarrow> int \<Rightarrow> bool" where
  "within_radius radius r = (case radius of None \<Rightarrow> True | Some rad \<Rightarrow> r \<le> rad)"

definition zeros :: "visited list list \<Rightarrow> nat" where
  "zeros Visited = sum_list (map (\<lambda>row. length (filter (\<lambda>c. c = VZero) row)) Visited)"

function shortestPath_loop :: "ArenaMap \<Rightarrow> coord \<Rightarrow> target \<Rightarrow> int option \<Rightarrow> string
    \<Rightarrow> visited list list \<Rightarrow> coord list \<Rightarrow> int \<Rightarrow> coord list
    \<Rightarrow> (search_result \<times> coord list) option" where
  "shortestPath_loop m root tg radius mode Visited Q r popped =
     (case Q of
        [] \<Rightarrow> Some (Inr ([], position m), popped)
      | v # Q' \<Rightarrow>
          if within_radius radius r then
            (case targetFound m v tg of
               Inl e \<Rightarrow> Some (Inl e, popped @ [v])
             | Inr True \<Rightarrow>
                 (case walk Visited v [v] of
                    None \<Rightarrow> None
                  | Some (Inl e) \<Rightarrow> Some (Inl e, popped @ [v])
                  | Some (Inr path) \<Rightarrow>
                      Some (ebind (getActions m root (rev (butlast path)))
                              (\<lambda>acts. Inr (acts, Some v)), popped @ [v]))
             | Inr False \<Rightarrow>
                 (case getNeighbours m v mode of
                    Inl e \<Rightarrow> Some (Inl e, popped @ [v])
                  | Inr ns \<Rightarrow>
                      (case visit Visited Q' v ns of
                         Inl e \<Rightarrow> Some (Inl e, popped @ [v])
                       | Inr (Visited', Q'') \<Rightarrow>
                           shortestPath_loop m root tg radius mode Visited' Q'' (r + 1)
                             (popped @ [v]))))
          else Some (Inr ([], position m), popped))"
  by pat_completeness auto

definition shortestPath_trace :: "ArenaMap \<Rightarrow> coord \<Rightarrow> target \<Rightarrow> int option \<Rightarrow> string
    \<Rightarrow> (search_result \<times> coord list) option" where
  "shortestPath_trace m root tg radius mode =
     (case Visited_init m of
        Inl e \<Rightarrow> Some (Inl e, [])
      | Inr V0 \<Rightarrow>
          (case setitem2 V0 root (VParent root) of
             Inl e \<Rightarrow> Some (Inl e, [])
           | Inr V \<Rightarrow> shortestPath_loop m root tg radius mode V [root] 0 []))"

definition shortestPath :: "ArenaMap \<Rightarrow> coord \<Rightarrow> target \<Rightarrow> int option \<Rightarrow> string
    \<Rightarrow> search_result option" where
  "shortestPath m root tg radius mode = map_option fst (shortestPath_trace m root tg radius mode)"

definition expanded :: "ArenaMap \<Rightarrow> coord \<Rightarrow> target \<Rightarrow> int option \<Rightarrow> string \<Rightarrow> coord list option" where
  "expanded m root tg radius mode = map_option snd (shortestPath_trace m root tg radius mode)"

text \<open>
  \<^verbatim>\<open>findTarget\<close> searches from \<^verbatim>\<open>self.position\<close>. With no position yet, the table is built
  first and \<^verbatim>\<open>root.x\<close> raises then.
\<close>

definition findTarget :: "ArenaMap \<Rightarrow> target \<Rightarrow> int option \<Rightarrow> search_result option" where
  "findTarget m tg radius =
     (case position m of
        None \<Rightarrow> Some (ebind (Visited_init m) (\<lambda>V. Inl AttributeError))
      | Some root \<Rightarrow> shortestPath m root tg radius [])"

subsection \<open>The decision of one turn\<close>

record KnowledgeBase =
  mapBase :: "ArenaMap option"
  round_counter :: int
  actionsToMake :: "Action list"
  actionsTarget :: "coord option"
  tileNeighbourhood :: int

definition KnowledgeBase_init :: KnowledgeBase where
  "KnowledgeBase_init =
     \<lparr> mapBase = None, round_counter = 0, actionsToMake = [], actionsTarget = None,
       tileNeighbourhood = 16 \<rparr>"

text \<open>
  \<^verbatim>\<open>self.mapBase.map[c.x][c.y]\<close> for \<^verbatim>\<open>c = self.mapBase.description.facing.value +
  self.mapBase.position\<close>, as \<^verbatim>\<open>choice\<close>, \<^verbatim>\<open>stepPossible\<close> and \<^verbatim>\<open>followTarget\<close> compute it.
\<close>

definition inFrontCoords :: "ArenaMap \<Rightarrow> error + coord" where
  "inFrontCoords m =
     (case description m of
        None \<Rightarrow> Inl AttributeError
      | Some d \<Rightarrow>
          (case position m of
             None \<Rightarrow> Inl TypeError
           | Some p \<Rightarrow> Inr (coord_add (facing_value (facing d)) p)))"

definition front_tile :: "KnowledgeBase \<Rightarrow> error + tile option" where
  "front_tile kb =
     (case mapBase kb of
        None \<Rightarrow> Inl AttributeError
      | Some m \<Rightarrow> ebind (inFrontCoords m) (\<lambda>c. getitem2 (mapGrid m) c))"

definition stepPossible :: "KnowledgeBase \<Rightarrow> Action \<Rightarrow> error + bool" where
  "stepPossible kb step =
     (if step = STEP_FORWARD then
        ebind (front_tile kb) (\<lambda>frontTile.
          if \<not> tilePassable frontTile then Inr False
          else ebind (tileIsMist frontTile) (\<lambda>mist. Inr (\<not> mist)))
      else Inr True)"

text \<open>
  \<^verbatim>\<open>random.choice\<close> of a list of six actions: \<open>rnd\<close> is the number drawn, taken modulo the
  length of the list.
\<close>

definition checkPossibleAction :: "tile option \<Rightarrow> nat \<Rightarrow> Action" where
  "checkPossibleAction inFrontTile rnd =
     (if \<not> tilePassable inFrontTile then TURN_RIGHT
      else [TURN_LEFT, TURN_RIGHT, STEP_FORWARD, STEP_FORWARD, STEP_FORWARD, STEP_FORWARD]
             ! (rnd mod 6))"

text \<open>
  A method that changes the fields of the knowledge base returns the new knowledge base
  beside its result; when it raises, the changes made before the exception stay.
\<close>

definition followTarget_none :: "KnowledgeBase \<Rightarrow> nat \<Rightarrow> (error + Action) \<times> KnowledgeBase" where
  "followTarget_none kb rnd =
     (let kb' = kb\<lparr>actionsToMake := [], actionsTarget := None\<rparr>
      in (ebind (front_tile kb') (\<lambda>t. Inr (checkPossibleAction t rnd)), kb'))"

definition followTarget :: "KnowledgeBase \<Rightarrow> nat \<Rightarrow> (error + Action) \<times> KnowledgeBase" where
  "followTarget kb rnd =
     (case actionsToMake kb of
        [] \<Rightarrow> followTarget_none kb rnd
      | nextStep # rest \<Rightarrow>
          (let kb1 = kb\<lparr>actionsToMake := rest\<rparr> in
           case stepPossible kb1 nextStep of
             Inl e \<Rightarrow> (Inl e, kb1)
           | Inr True \<Rightarrow> (Inr nextStep, kb1)
           | Inr False \<Rightarrow>
               followTarget_none (kb1\<lparr>actionsToMake := [], actionsTarget := None\<rparr>) rnd))"

text \<open>\<^verbatim>\<open>len(potionTile)\<close>: a coordinate is a pair, \<^verbatim>\<open>None\<close> has no length.\<close>

definition len_coord :: "coord option \<Rightarrow> error + int" where
  "len_coord c = (case c of None \<Rightarrow> Inl TypeError | Some p \<Rightarrow> Inr 2)"

text \<open>The body of the \<^verbatim>\<open>try\<close> of \<^verbatim>\<open>choice\<close>; \<open>None\<close> is a search that never returns.\<close>

definition choice_try :: "KnowledgeBase \<Rightarrow> tile option \<Rightarrow> nat
    \<Rightarrow> ((error + Action) \<times> KnowledgeBase) option" where
  "choice_try kb inFrontTile rnd =
     (case mapBase kb of
        None \<Rightarrow> Some (Inl AttributeError, kb)
      | Some m \<Rightarrow>
     (case findTarget m (TConsumableDescription ''potion'') (Some (tileNeighbourhood kb)) of
        None \<Rightarrow> None
      | Some (Inl e) \<Rightarrow> Some (Inl e, kb)
      | Some (Inr (potionPath, potionTile)) \<Rightarrow>
     (case inFrontTile of
        None \<Rightarrow> Some (Inl AttributeError, kb)
      | Some t \<Rightarrow>
          if attr_character t \<noteq> None then Some (Inr ATTACK, kb)
          else if round_counter kb < 3 then
            Some (Inr TURN_RIGHT, kb\<lparr>round_counter := round_counter kb + 1\<rparr>)
          else if length (actionsToMake kb) > 0 then Some (followTarget kb rnd)
          else
            (case (if potionPath \<noteq> []
                   then ebind (len_coord potionTile) (\<lambda>n. Inr (n < tileNeighbourhood kb))
                   else Inr False) of
               Inl e \<Rightarrow> Some (Inl e, kb)
             | Inr True \<Rightarrow>
                 Some (followTarget (kb\<lparr>actionsToMake := potionPath, actionsTarget := potionTile\<rparr>) rnd)
             | Inr False \<Rightarrow>
                 (case menhir m of
                    Some mh \<Rightarrow>
                      (case findTarget m (TCoords mh) None of
                         None \<Rightarrow> None
                       | Some (Inl e) \<Rightarrow> Some (Inl e, kb)
                       | Some (Inr (path, tgt)) \<Rightarrow>
                           (let kb1 = kb\<lparr>actionsToMake := path, actionsTarget := tgt\<rparr> in
                            if int (length path) > tileNeighbourhood kb
                            then Some (followTarget kb1 rnd)
                            else Some (Inr (checkPossibleAction inFrontTile rnd),
                                       kb1\<lparr>actionsToMake := [], actionsTarget := None\<rparr>)))
                  | None \<Rightarrow> Some (Inr (checkPossibleAction inFrontTile rnd), kb))))))"

text \<open>
  \<^verbatim>\<open>choice\<close>: the tile in front is looked up before the \<^verbatim>\<open>try\<close>, so an exception there
  leaves the method; an exception of the body is replaced by \<^verbatim>\<open>checkPossibleAction\<close>,
  which draws again (\<open>rnd'\<close>).
\<close>

definition choice :: "KnowledgeBase \<Rightarrow> nat \<Rightarrow> nat \<Rightarrow> ((error + Action) \<times> KnowledgeBase) option" where
  "choice kb rnd rnd' =
     (case front_tile kb of
        Inl e \<Rightarrow> Some (Inl e, kb)
      | Inr inFrontTile \<Rightarrow>
          (case choice_try kb inFrontTile rnd of
             None \<Rightarrow> None
           | Some (Inl e, kb') \<Rightarrow> Some (Inr (checkPossibleAction inFrontTile rnd'), kb')
           | Some (Inr a, kb') \<Rightarrow> Some (Inr a, kb')))"

definition KnowledgeBase_update :: "KnowledgeBase \<Rightarrow> ChampionKnowledge \<Rightarrow> error option \<times> KnowledgeBase" where
  "KnowledgeBase_update kb k =
     (case mapBase kb of
        None \<Rightarrow> (Some AttributeError, kb)
      | Some m \<Rightarrow> (case Map_update m k of (e, m') \<Rightarrow> (e, kb\<lparr>mapBase := Some m'\<rparr>)))"

definition reset :: "KnowledgeBase \<Rightarrow> Arena \<Rightarrow> error option \<times> KnowledgeBase" where
  "reset kb a =
     (case Map_init a of
        Inl e \<Rightarrow> (Some e, kb)
      | Inr m \<Rightarrow> (None, kb\<lparr>mapBase := Some m\<rparr>))"

text \<open>\<^verbatim>\<open>AresController.decide\<close>: \<^verbatim>\<open>update\<close>, then \<^verbatim>\<open>choice\<close>.\<close>

definition decide :: "KnowledgeBase \<Rightarrow> ChampionKnowledge \<Rightarrow> nat \<Rightarrow> nat
    \<Rightarrow> ((error + Action) \<times> KnowledgeBase) option" where
  "decide kb k rnd rnd' =
     (case KnowledgeBase_update kb k of
        (Some e, kb') \<Rightarrow> Some (Inl e, kb')
      | (None, kb') \<Rightarrow> choice kb' rnd rnd')"

section \<open>Notions used to state the properties of the search\<close>

text \<open>
  A table has the shape of the map when it has \<^verbatim>\<open>MAPSIZE[0]\<close> rows of \<^verbatim>\<open>MAPSIZE[1]\<close> cells;
  \<open>cell_at\<close> reads and \<open>cell_put\<close> writes the cell of a coordinate inside the map.
\<close>

definition shaped :: "int \<times> int \<Rightarrow> 'a list list \<Rightarrow> bool" where
  "shaped sz T = (length T = nat (fst sz) \<and> (\<forall>row \<in> set T. length row = nat (snd sz)))"

definition in_size :: "int \<times> int \<Rightarrow> coord \<Rightarrow> bool" where
  "in_size sz c = (0 \<le> fst c \<and> fst c < fst sz \<and> 0 \<le> snd c \<and> snd c < snd sz)"

definition cell_at :: "'a list list \<Rightarrow> coord \<Rightarrow> 'a" where
  "cell_at T c = T ! nat (fst c) ! nat (snd c)"

definition cell_put :: "'a list list \<Rightarrow> coord \<Rightarrow> 'a \<Rightarrow> 'a list list" where
  "cell_put T c v = T[nat (fst c) := (T ! nat (fst c))[nat (snd c) := v]]"

definition grid_ok :: "ArenaMap \<Rightarrow> bool" where
  "grid_ok m = shaped (MAPSIZE m) (mapGrid m)"

text \<open>
  The map is ready for a search from the champion's position: the grid has the shape of
  the map, the position is inside it on a known tile, and the champion's own description
  (its facing) is known. \<^verbatim>\<open>Map.update\<close> leaves the map so when it does not raise.
\<close>

definition map_ok :: "ArenaMap \<Rightarrow> bool" where
  "map_ok m = (grid_ok m \<and> description m \<noteq> None \<and>
     (case position m of None \<Rightarrow> False
      | Some p \<Rightarrow> isInMap m p \<and> cell_at (mapGrid m) p \<noteq> None))"

text \<open>
  The graph that is searched: from a cell, the neighbours that \<^verbatim>\<open>getNeighbours\<close> returns
  and that \<^verbatim>\<open>shortestPath\<close> can enter (their tile is known). A walk is a list of cells,
  each an edge away from the one before; the walk \<open>ws\<close> from \<open>c\<close> ends in
  \<open>last (c # ws)\<close> and has \<open>length ws\<close> steps.
\<close>

definition adjacent4 :: "coord \<Rightarrow> coord list" where
  "adjacent4 c = [(fst c + 1, snd c), (fst c - 1, snd c), (fst c, snd c + 1), (fst c, snd c - 1)]"

definition passable_clear :: "ArenaMap \<Rightarrow> coord \<Rightarrow> bool" where
  "passable_clear m c =
     (case cell_at (mapGrid m) c of None \<Rightarrow> False
      | Some t \<Rightarrow> tilePassable (Some t) \<and> ''mist'' \<notin> set (attr_effects t))"

definition nbrs :: "ArenaMap \<Rightarrow> string \<Rightarrow> coord \<Rightarrow> coord list" where
  "nbrs m mode c = filter (\<lambda>n. isInMap m n \<and> (passable_clear m n \<or> mode \<noteq> [])) (adjacent4 c)"

definition edge :: "ArenaMap \<Rightarrow> string \<Rightarrow> coord \<Rightarrow> coord \<Rightarrow> bool" where
  "edge m mode c u = (u \<in> set (nbrs m mode c) \<and> cell_at (mapGrid m) u \<noteq> None)"

fun walk_ok :: "ArenaMap \<Rightarrow> string \<Rightarrow> coord \<Rightarrow> coord list \<Rightarrow> bool" where
  "walk_ok m mode c [] = True"
| "walk_ok m mode c (w # ws) = (edge m mode c w \<and> walk_ok m mode w ws)"

text \<open>A cell that a walk of at most \<open>rad\<close> steps from the root reaches.\<close>

definition reach_within :: "ArenaMap \<Rightarrow> string \<Rightarrow> coord \<Rightarrow> int \<Rightarrow> coord \<Rightarrow> bool" where
  "reach_within m mode root rad c =
     (\<exists>ws. walk_ok m mode root ws \<and> last (root # ws) = c \<and> int (length ws) \<le> rad)"

definition moves :: "Action list \<Rightarrow> nat" where
  "moves acts = length (filter (\<lambda>a. a = STEP_FORWARD) acts)"


text \<open>The loop over the neighbours without the errors, for tables of the map's shape.\<close>

fun vis :: "visited list list \<Rightarrow> coord list \<Rightarrow> coord \<Rightarrow> coord list
    \<Rightarrow> visited list list \<times> coord list" where
  "vis V Q v [] = (V, Q)"
| "vis V Q v (p # ps) =
     (if cell_at V p = VZero then vis (cell_put V p (VParent v)) (Q @ [p]) v ps
      else vis V Q v ps)"

definition is_visited :: "ArenaMap \<Rightarrow> visited list list \<Rightarrow> coord \<Rightarrow> bool" where
  "is_visited m V c = (isInMap m c \<and> (\<exists>p. cell_at V c = VParent p))"

definition parent :: "visited list list \<Rightarrow> coord \<Rightarrow> coord" where
  "parent V c = (case cell_at V c of VParent p \<Rightarrow> p | _ \<Rightarrow> c)"

fun chain :: "visited list list \<Rightarrow> coord \<Rightarrow> nat \<Rightarrow> coord list" where
  "chain V v 0 = []"
| "chain V v (Suc k) = parent V v # chain V (parent V v) k"

fun path_of :: "visited list list \<Rightarrow> coord \<Rightarrow> nat \<Rightarrow> coord list" where
  "path_of V v 0 = []"
| "path_of V v (Suc k) = path_of V (parent V v) k @ [v]"

text \<open>
  The table is a tree towards the root: the root is its own parent, a cell holding \<^verbatim>\<open>0\<close>
  has a known tile, and every other reached cell was entered over an edge from its parent,
  one step further from the root (\<open>d\<close> counts the steps).
\<close>

definition tree_inv :: "ArenaMap \<Rightarrow> string \<Rightarrow> coord \<Rightarrow> visited list list \<Rightarrow> (coord \<Rightarrow> nat) \<Rightarrow> bool" where
  "tree_inv m mode root V d =
     (shaped (MAPSIZE m) V \<and> isInMap m root \<and> cell_at V root = VParent root \<and> d root = 0 \<and>
      (\<forall>c. isInMap m c \<longrightarrow>
           (cell_at V c = VZero \<longrightarrow> cell_at (mapGrid m) c \<noteq> None) \<and>
           (cell_at V c = VNone \<longrightarrow> cell_at (mapGrid m) c = None)) \<and>
      (\<forall>c p. isInMap m c \<and> cell_at V c = VParent p \<and> c \<noteq> root \<longrightarrow>
           is_visited m V p \<and> d c = Suc (d p) \<and> edge m mode p c))"



text \<open>A target whose test raises on no known tile of the map.\<close>

definition total_target :: "ArenaMap \<Rightarrow> target \<Rightarrow> bool" where
  "total_target m tg =
     (\<forall>c. isInMap m c \<and> cell_at (mapGrid m) c \<noteq> None \<longrightarrow> (\<exists>b. targetFound m c tg = Inr b))"

section \<open>Example states\<close>

text \<open>Concrete arenas, observations and knowledge bases on which the functions are run.\<close>

definition land :: tile where
  "land = Tile True None"

definition sea :: tile where
  "sea = Tile False None"

definition seen_land :: tile where
  "seen_land = TileDescription ''land'' None None None []"

definition seen_potion :: tile where
  "seen_potion = TileDescription ''land'' None None (Some ''potion'') []"

definition seen_me :: "Facing \<Rightarrow> tile" where
  "seen_me f = TileDescription ''land'' None (Some (ChampionDescription f)) None []"

definition champion_on_land :: "Facing \<Rightarrow> TileDesc" where
  "champion_on_land f = TileDesc ''land'' None (Some (ChampionDescription f)) None []"

text \<open>A 2 x 2 arena of land, and the knowledge base after the first \<^verbatim>\<open>reset\<close>.\<close>

definition arena2 :: Arena where
  "arena2 = \<lparr> terrain = [((0, 0), land), ((1, 0), land), ((0, 1), land), ((1, 1), land)],
               arena_size = (2, 2) \<rparr>"

definition arena2_map :: ArenaMap where
  "arena2_map = \<lparr> MAPSIZE = (2, 2), mapGrid = [[Some land, Some land], [Some land, Some land]],
      opponentsAlive = 0, description = None, position = None, menhir = None \<rparr>"

definition kb_fresh :: KnowledgeBase where
  "kb_fresh = snd (reset KnowledgeBase_init arena2)"

text \<open>The champion in the last column, facing RIGHT (out of the arena).\<close>

definition obs_edge :: ChampionKnowledge where
  "obs_edge = \<lparr> ck_position = (1, 0), no_of_champions_alive = 2,
      visible_tiles = [((1, 0), champion_on_land RIGHT)] \<rparr>"

text \<open>The champion at (0, 0) facing DOWN, with free land ahead, and with another champion ahead.\<close>

definition obs_free :: ChampionKnowledge where
  "obs_free = \<lparr> ck_position = (0, 0), no_of_champions_alive = 2,
      visible_tiles = [((0, 0), champion_on_land DOWN), ((0, 1), TileDesc ''land'' None None None [])] \<rparr>"

definition obs_occupant :: ChampionKnowledge where
  "obs_occupant = \<lparr> ck_position = (0, 0), no_of_champions_alive = 2,
      visible_tiles = [((0, 0), champion_on_land DOWN), ((0, 1), champion_on_land UP)] \<rparr>"

text \<open>
  The champion at (1, 1) facing LEFT, with another champion on the tile ahead, (0, 1), and
  with free land there.
\<close>

definition obs_occupant_left :: ChampionKnowledge where
  "obs_occupant_left = \<lparr> ck_position = (1, 1), no_of_champions_alive = 2,
      visible_tiles = [((1, 1), champion_on_land LEFT), ((0, 1), champion_on_land RIGHT)] \<rparr>"

definition obs_free_left :: ChampionKnowledge where
  "obs_free_left = \<lparr> ck_position = (1, 1), no_of_champions_alive = 1,
      visible_tiles = [((1, 1), champion_on_land LEFT), ((0, 1), TileDesc ''land'' None None None [])] \<rparr>"

text \<open>
  A 3 x 3 map, the champion in the middle facing UP towards the sea, a potion on the tile
  to its left, and a queued plan whose next action is a step forward.
\<close>

definition map_stale :: ArenaMap where
  "map_stale = \<lparr> MAPSIZE = (3, 3),
      mapGrid = [[Some sea, Some seen_potion, Some sea],
                 [Some sea, Some (seen_me UP), Some sea],
                 [Some sea, Some land, Some sea]],
      opponentsAlive = 1, description = Some (ChampionDescription UP),
      position = Some (1, 1), menhir = None \<rparr>"

definition kb_stale :: KnowledgeBase where
  "kb_stale = \<lparr> mapBase = Some map_stale, round_counter = 3,
      actionsToMake = [STEP_FORWARD, STEP_FORWARD], actionsTarget = Some (1, -1),
      tileNeighbourhood = 16 \<rparr>"

text \<open>The same map with the potion under the champion, and with no potion at all.\<close>

definition map_potion_here :: ArenaMap where
  "map_potion_here = map_stale\<lparr>mapGrid :=
      [[Some sea, Some seen_land, Some sea],
       [Some sea, Some (TileDescription ''land'' None (Some (ChampionDescription UP)) (Some ''potion'') []), Some sea],
       [Some sea, Some land, Some sea]]\<rparr>"

definition map_no_potion :: ArenaMap where
  "map_no_potion = map_stale\<lparr>mapGrid :=
      [[Some sea, Some seen_land, Some sea],
       [Some sea, Some (seen_me UP), Some sea],
       [Some sea, Some land, Some sea]]\<rparr>"

text \<open>
  A staircase of land in the sea, 6 columns of 5 cells, every land tile of it seen by the
  champion: from the champion at (0, 0), facing DOWN, nine steps lead to a potion at (5, 4),
  and every step needs a turn.
\<close>

definition map_stairs :: ArenaMap where
  "map_stairs = \<lparr> MAPSIZE = (6, 5),
      mapGrid = [[Some (seen_me DOWN), Some sea, Some sea, Some sea, Some sea],
                 [Some seen_land, Some seen_land, Some sea, Some sea, Some sea],
                 [Some sea, Some seen_land, Some seen_land, Some sea, Some sea],
                 [Some sea, Some sea, Some seen_land, Some seen_land, Some sea],
                 [Some sea, Some sea, Some sea, Some seen_land, Some seen_land],
                 [Some sea, Some sea, Some sea, Some sea, Some seen_potion]],
      opponentsAlive = 1, description = Some (ChampionDescription DOWN),
      position = Some (0, 0), menhir = None \<rparr>"

definition kb_stairs :: KnowledgeBase where
  "kb_stairs = \<lparr> mapBase = Some map_stairs, round_counter = 3, actionsToMake = [],
      actionsTarget = None, tileNeighbourhood = 16 \<rparr>"

text \<open>
  A knowledge base on the 2 x 2 arena after the forced scan, with a queued plan; the
  knowledge bases after the observations above, and after the observation of the sea ahead
  on the 3 x 3 map.
\<close>

definition kb_plan :: KnowledgeBase where
  "kb_plan = \<lparr> mapBase = Some arena2_map, round_counter = 3,
      actionsToMake = [STEP_FORWARD, TURN_RIGHT, STEP_FORWARD], actionsTarget = Some (0, 0),
      tileNeighbourhood = 16 \<rparr>"

definition kb_seen_free :: KnowledgeBase where
  "kb_seen_free = snd (KnowledgeBase_update kb_fresh obs_free)"

definition kb_plan_occupant :: KnowledgeBase where
  "kb_plan_occupant = snd (KnowledgeBase_update kb_plan obs_occupant_left)"

definition kb_plan_free :: KnowledgeBase where
  "kb_plan_free = snd (KnowledgeBase_update kb_plan_occupant obs_free_left)"

definition obs_sea_ahead :: ChampionKnowledge where
  "obs_sea_ahead = \<lparr> ck_position = (1, 1), no_of_champions_alive = 2,
      visible_tiles = [((1, 1), champion_on_land UP), ((1, 0), TileDesc ''sea'' None None None [])] \<rparr>"

definition kb_stale_seen :: KnowledgeBase where
  "kb_stale_seen = snd (KnowledgeBase_update kb_stale obs_sea_ahead)"

text \<open>The 2 x 2 arena, every tile seen as open land, the champion at (0, 0) facing LEFT.\<close>

definition map_open :: ArenaMap where
  "map_open = \<lparr> MAPSIZE = (2, 2),
      mapGrid = [[Some (seen_me LEFT), Some seen_land], [Some seen_land, Some seen_land]],
      opponentsAlive = 1, description = Some (ChampionDescription LEFT),
      position = Some (0, 0), menhir = None \<rparr>"

section \<open>Termination of the search\<close>


lemma ebind_simps [simp]:
  "ebind (Inl e) f = Inl e"
  "ebind (Inr v) f = f v"
  by (simp_all add: ebind_def)

text \<open>
  Every cell enters the queue at most once: a cell is appended when its entry of the table
  changes from \<^verbatim>\<open>0\<close> to a coordinate, so the number of zero entries plus the length of
  the queue goes down by one with each cell popped.
\<close>

lemma py_index_Some: "py_index xs i = Some k \<Longrightarrow> k < length xs"
  by (auto simp: py_index_def Let_def split: if_splits)

lemma filter_update_count:
  "j < length row \<Longrightarrow> row ! j = VZero \<Longrightarrow> y \<noteq> VZero \<Longrightarrow>
   Suc (length (filter (\<lambda>c. c = VZero) (row[j := y]))) = length (filter (\<lambda>c. c = VZero) row)"
proof (induction row arbitrary: j)
  case Nil then show ?case by simp
next
  case (Cons a row)
  then show ?case by (cases j) auto
qed

lemma sum_list_map_update:
  fixes f :: "'a \<Rightarrow> nat"
  shows "i < length xs \<Longrightarrow> Suc (f y) = f (xs ! i) \<Longrightarrow>
   Suc (sum_list (map f (xs[i := y]))) = sum_list (map f xs)"
proof (induction xs arbitrary: i)
  case Nil then show ?case by simp
next
  case (Cons a xs)
  then show ?case by (cases i) auto
qed

lemma zeros_setitem2:
  assumes "getitem2 V p = Inr VZero" "setitem2 V p (VParent v) = Inr V'"
  shows "Suc (zeros V') = zeros V"
proof -
  from assms(1) obtain i where i: "py_index V (fst p) = Some i"
    by (auto simp: getitem2_def getitem_def split: option.splits)
  from assms(1) i obtain j where j: "py_index (V ! i) (snd p) = Some j" and z: "V ! i ! j = VZero"
    by (auto simp: getitem2_def getitem_def split: option.splits)
  from assms(2) i j have V': "V' = V[i := (V ! i)[j := VParent v]]"
    by (auto simp: setitem2_def getitem_def setitem_def)
  have "Suc (length (filter (\<lambda>c. c = VZero) ((V ! i)[j := VParent v]))) = length (filter (\<lambda>c. c = VZero) (V ! i))"
    using j z by (intro filter_update_count) (auto dest: py_index_Some)
  then show ?thesis
    unfolding zeros_def V' using i by (intro sum_list_map_update) (auto dest: py_index_Some)
qed

lemma visit_measure:
  "visit V Q v ns = Inr (V', Q') \<Longrightarrow> zeros V' + length Q' = zeros V + length Q"
proof (induction ns arbitrary: V Q)
  case Nil then show ?case by simp
next
  case (Cons p ps)
  show ?case
  proof (cases "getitem2 V p")
    case (Inl e) with Cons.prems show ?thesis by simp
  next
    case (Inr cell)
    show ?thesis
    proof (cases "cell = VZero")
      case True
      with Inr Cons.prems obtain V1 where V1: "setitem2 V p (VParent v) = Inr V1"
        and rest: "visit V1 (Q @ [p]) v ps = Inr (V', Q')"
        by (cases "setitem2 V p (VParent v)") auto
      from Cons.IH[OF rest] zeros_setitem2[OF _ V1] Inr True show ?thesis by auto
    next
      case False
      with Inr Cons.prems have "visit V Q v ps = Inr (V', Q')" by simp
      from Cons.IH[OF this] show ?thesis .
    qed
  qed
qed

termination shortestPath_loop
  by (relation "measure (\<lambda>(m, root, tg, radius, mode, V, Q, r, popped). zeros V + length Q)")
     (auto dest: visit_measure)

declare shortestPath_loop.simps [simp del]


section \<open>Auxiliary facts\<close>

lemmas example_defs =
  land_def sea_def seen_land_def seen_potion_def seen_me_def champion_on_land_def arena2_def
  arena2_map_def kb_fresh_def obs_edge_def obs_free_def obs_occupant_def map_stale_def
  kb_stale_def map_potion_here_def map_no_potion_def map_stairs_def kb_stairs_def
  kb_plan_def kb_seen_free_def kb_plan_occupant_def kb_plan_free_def obs_sea_ahead_def
  kb_stale_seen_def map_open_def obs_occupant_left_def obs_free_left_def

subsection \<open>Reading and writing a table\<close>

lemma py_index_length: "length ys = length xs \<Longrightarrow> py_index ys i = py_index xs i"
  by (simp add: py_index_def)

lemma getitem2_setitem2_same:
  assumes "setitem2 V c v = Inr V'"
  shows "getitem2 V' c = Inr v"
proof -
  from assms obtain i where i: "py_index V (fst c) = Some i"
    by (auto simp: setitem2_def getitem_def split: option.splits)
  from assms i obtain j where j: "py_index (V ! i) (snd c) = Some j"
    by (auto simp: setitem2_def getitem_def setitem_def split: option.splits)
  from assms i j have V': "V' = V[i := (V ! i)[j := v]]"
    by (auto simp: setitem2_def getitem_def setitem_def)
  have i': "py_index V' (fst c) = Some i"
    using i py_index_length[of V' V "fst c"] by (simp add: V')
  have row: "V' ! i = (V ! i)[j := v]"
    using i by (simp add: V' py_index_Some)
  have j': "py_index (V' ! i) (snd c) = Some j"
    using j py_index_length[of "V' ! i" "V ! i" "snd c"] by (simp add: row)
  show ?thesis
    using i' j' j by (simp add: getitem2_def getitem_def row py_index_Some)
qed

subsection \<open>What the search returns\<close>

lemma walk_root:
  "getitem2 V v = Inr (VParent v) \<Longrightarrow> walk V v path = Some (Inr path)"
  by (subst walk.simps) simp

lemma loop_unfold_Cons:
  "within_radius radius r \<Longrightarrow>
   shortestPath_loop m root tg radius mode V (v # Q') r popped =
     (case targetFound m v tg of
        Inl e \<Rightarrow> Some (Inl e, popped @ [v])
      | Inr True \<Rightarrow>
          (case walk V v [v] of
             None \<Rightarrow> None
           | Some (Inl e) \<Rightarrow> Some (Inl e, popped @ [v])
           | Some (Inr path) \<Rightarrow>
               Some (ebind (getActions m root (rev (butlast path)))
                       (\<lambda>acts. Inr (acts, Some v)), popped @ [v]))
      | Inr False \<Rightarrow>
          (case getNeighbours m v mode of
             Inl e \<Rightarrow> Some (Inl e, popped @ [v])
           | Inr ns \<Rightarrow>
               (case visit V Q' v ns of
                  Inl e \<Rightarrow> Some (Inl e, popped @ [v])
                | Inr (V', Q'') \<Rightarrow>
                    shortestPath_loop m root tg radius mode V' Q'' (r + 1) (popped @ [v]))))"
  by (subst shortestPath_loop.simps) simp

lemma loop_unfold_stop:
  "Q = [] \<or> \<not> within_radius radius r \<Longrightarrow>
   shortestPath_loop m root tg radius mode V Q r popped = Some (Inr ([], position m), popped)"
  by (subst shortestPath_loop.simps) (auto split: list.splits)

lemma loop_miss:
  "shortestPath_loop m root tg radius mode V Q r popped = Some (Inr res, popped') \<Longrightarrow>
   \<forall>v \<in> set popped'. targetFound m v tg \<noteq> Inr True \<Longrightarrow>
   res = ([], position m)"
proof (induction m root tg radius mode V Q r popped rule: shortestPath_loop.induct)
  case (1 m root tg radius mode V Q r popped)
  show ?case
  proof (cases "Q = [] \<or> \<not> within_radius radius r")
    case True
    from "1.prems"(1) loop_unfold_stop[OF True] show ?thesis by simp
  next
    case False
    then obtain v Q' where Q: "Q = v # Q'" and wr: "within_radius radius r"
      by (cases Q) auto
    note unf = loop_unfold_Cons[OF wr, of m root tg mode V v Q' popped]
    show ?thesis
    proof (cases "targetFound m v tg")
      case (Inl e)
      with "1.prems"(1) unf Q show ?thesis by simp
    next
      case (Inr b)
      show ?thesis
      proof (cases b)
        case True
        have "v \<in> set popped'"
        proof (cases "walk V v [v]")
          case None
          with "1.prems"(1) unf Q Inr True show ?thesis by simp
        next
          case (Some w)
          with "1.prems"(1) unf Q Inr True show ?thesis by (cases w) auto
        qed
        with "1.prems"(2) Inr True show ?thesis by auto
      next
        case False
        then have tf: "targetFound m v tg = Inr False" using Inr by simp
        show ?thesis
        proof (cases "getNeighbours m v mode")
          case (Inl e)
          with "1.prems"(1) unf Q tf show ?thesis by simp
        next
          case ns: (Inr ns)
          show ?thesis
          proof (cases "visit V Q' v ns")
            case (Inl e)
            with "1.prems"(1) unf Q tf ns show ?thesis by simp
          next
            case vis: (Inr VQ)
            obtain V' Q'' where VQ: "VQ = (V', Q'')" by (cases VQ)
            from "1.prems"(1) unf Q tf ns vis VQ
            have rec: "shortestPath_loop m root tg radius mode V' Q'' (r + 1) (popped @ [v])
                    = Some (Inr res, popped')" by simp
            from "1.IH"[OF Q wr tf refl ns vis VQ[symmetric] rec "1.prems"(2)]
            show ?thesis .
          qed
        qed
      qed
    qed
  qed
qed


lemma in_size_isInMap: "isInMap m c = in_size (MAPSIZE m) c"
  by (auto simp: isInMap_def in_size_def)

lemma py_index_nonneg: "0 \<le> i \<Longrightarrow> i < int (length xs) \<Longrightarrow> py_index xs i = Some (nat i)"
  by (simp add: py_index_def)

lemma getitem2_at:
  assumes "shaped sz T" "in_size sz c"
  shows "getitem2 T c = Inr (cell_at T c)"
proof -
  from assms have i: "py_index T (fst c) = Some (nat (fst c))"
    by (intro py_index_nonneg) (auto simp: shaped_def in_size_def)
  from assms have "nat (fst c) < length T" by (auto simp: shaped_def in_size_def)
  then have "T ! nat (fst c) \<in> set T" by simp
  with assms have "length (T ! nat (fst c)) = nat (snd sz)" by (auto simp: shaped_def)
  with assms have j: "py_index (T ! nat (fst c)) (snd c) = Some (nat (snd c))"
    by (intro py_index_nonneg) (auto simp: in_size_def)
  show ?thesis by (simp add: getitem2_def getitem_def i j cell_at_def)
qed

lemma setitem2_put:
  assumes "shaped sz T" "in_size sz c"
  shows "setitem2 T c v = Inr (cell_put T c v)"
proof -
  from assms have i: "py_index T (fst c) = Some (nat (fst c))"
    by (intro py_index_nonneg) (auto simp: shaped_def in_size_def)
  from assms have "nat (fst c) < length T" by (auto simp: shaped_def in_size_def)
  then have "T ! nat (fst c) \<in> set T" by simp
  with assms have "length (T ! nat (fst c)) = nat (snd sz)" by (auto simp: shaped_def)
  with assms have j: "py_index (T ! nat (fst c)) (snd c) = Some (nat (snd c))"
    by (intro py_index_nonneg) (auto simp: in_size_def)
  show ?thesis by (simp add: setitem2_def getitem_def setitem_def i j cell_put_def)
qed

lemma shaped_put:
  assumes a: "shaped sz T"
  shows "shaped sz (cell_put T c v)"
proof (cases "nat (fst c) < length T")
  case True
  then have "T ! nat (fst c) \<in> set T" by simp
  with a have r: "length ((T ! nat (fst c))[nat (snd c) := v]) = nat (snd sz)"
    by (simp add: shaped_def)
  have sub: "set (cell_put T c v) \<subseteq> insert ((T ! nat (fst c))[nat (snd c) := v]) (set T)"
    unfolding cell_put_def by (rule set_update_subset_insert)
  have "\<forall>row \<in> set (cell_put T c v). length row = nat (snd sz)"
  proof
    fix row assume "row \<in> set (cell_put T c v)"
    with sub have "row = (T ! nat (fst c))[nat (snd c) := v] \<or> row \<in> set T" by auto
    with r a show "length row = nat (snd sz)" by (auto simp: shaped_def)
  qed
  moreover have "length (cell_put T c v) = length T" by (simp add: cell_put_def)
  ultimately show ?thesis using a by (simp add: shaped_def)
next
  case False
  then have "length T \<le> nat (fst c)" by simp
  then have "cell_put T c v = T" unfolding cell_put_def by (rule list_update_beyond)
  with a show ?thesis by simp
qed

lemma at_put:
  assumes "shaped sz T" "in_size sz c" "in_size sz c'"
  shows "cell_at (cell_put T c v) c' = (if c' = c then v else cell_at T c')"
proof -
  from assms have li: "nat (fst c) < length T" "nat (fst c') < length T"
    by (auto simp: shaped_def in_size_def)
  then have "T ! nat (fst c) \<in> set T" by simp
  with assms have lj: "nat (snd c) < length (T ! nat (fst c))"
    by (auto simp: shaped_def in_size_def)
  have eq: "(c' = c) = (nat (fst c') = nat (fst c) \<and> nat (snd c') = nat (snd c))"
    using assms(2,3) by (auto simp: in_size_def prod_eq_iff)
  show ?thesis
    using li lj by (auto simp: cell_at_def cell_put_def eq nth_list_update)
qed

subsection \<open>The table of a search and the neighbours of a cell\<close>

lemma mapM_err_Inr:
  "(\<And>x. x \<in> set xs \<Longrightarrow> f x = Inr (g x)) \<Longrightarrow> mapM_err f xs = Inr (map g xs)"
  by (induction xs) auto

lemma filter_err_Inr:
  "(\<And>x. x \<in> set xs \<Longrightarrow> f x = Inr (g x)) \<Longrightarrow> filter_err f xs = Inr (filter g xs)"
  by (induction xs) auto

lemma Visited_init_ok:
  assumes "grid_ok m"
  shows "Visited_init m = Inr (map (map fresh_cell) (mapGrid m))"
proof -
  let ?W = "nat (fst (MAPSIZE m))" and ?H = "nat (snd (MAPSIZE m))"
  let ?g = "mapGrid m"
  from assms have len: "length ?g = ?W" and rows: "\<And>row. row \<in> set ?g \<Longrightarrow> length row = ?H"
    by (auto simp: grid_ok_def shaped_def)
  have cellv: "\<And>i j. i < ?W \<Longrightarrow> j < ?H \<Longrightarrow>
      ebind (getitem2 ?g (int i, int j)) (\<lambda>cell. Inr (fresh_cell cell))
        = Inr (fresh_cell (?g ! i ! j))"
  proof -
    fix i j assume "i < ?W" "j < ?H"
    then have "in_size (MAPSIZE m) (int i, int j)" by (auto simp: in_size_def)
    from getitem2_at[OF assms[unfolded grid_ok_def] this]
    show "ebind (getitem2 ?g (int i, int j)) (\<lambda>cell. Inr (fresh_cell cell))
        = Inr (fresh_cell (?g ! i ! j))"
      by (simp add: cell_at_def)
  qed
  have rowv: "\<And>i. i < ?W \<Longrightarrow>
      mapM_err (\<lambda>j. ebind (getitem2 ?g (int i, j)) (\<lambda>cell. Inr (fresh_cell cell)))
        (map int [0..<?H]) = Inr (map fresh_cell (?g ! i))"
  proof -
    fix i assume i: "i < ?W"
    have "mapM_err (\<lambda>j. ebind (getitem2 ?g (int i, j)) (\<lambda>cell. Inr (fresh_cell cell)))
        (map int [0..<?H]) = Inr (map (\<lambda>j. fresh_cell (?g ! i ! nat j)) (map int [0..<?H]))"
      by (rule mapM_err_Inr) (auto simp: cellv[OF i])
    also have "map (\<lambda>j. fresh_cell (?g ! i ! nat j)) (map int [0..<?H]) = map fresh_cell (map (\<lambda>j. ?g ! i ! j) [0..<?H])"
      by simp
    also have "map (\<lambda>j. ?g ! i ! j) [0..<?H] = ?g ! i"
      using rows[of "?g ! i"] i len map_nth[of "?g ! i"] by simp
    finally show "mapM_err (\<lambda>j. ebind (getitem2 ?g (int i, j)) (\<lambda>cell. Inr (fresh_cell cell)))
        (map int [0..<?H]) = Inr (map fresh_cell (?g ! i))" .
  qed
  have "Visited_init m = Inr (map (\<lambda>i. map fresh_cell (?g ! nat i)) (map int [0..<?W]))"
    unfolding Visited_init_def by (rule mapM_err_Inr) (auto simp: rowv)
  also have "map (\<lambda>i. map fresh_cell (?g ! nat i)) (map int [0..<?W]) = map (map fresh_cell) (map (\<lambda>i. ?g ! i) [0..<?W])"
    by simp
  also have "map (\<lambda>i. ?g ! i) [0..<?W] = ?g"
    using len map_nth[of ?g] by simp
  finally show ?thesis .
qed

lemma shaped_fresh: "shaped sz g \<Longrightarrow> shaped sz (map (map fresh_cell) g)"
  by (auto simp: shaped_def)

lemma at_fresh:
  assumes "shaped sz g" "in_size sz c"
  shows "cell_at (map (map fresh_cell) g) c = fresh_cell (cell_at g c)"
proof -
  from assms have i: "nat (fst c) < length g" by (auto simp: shaped_def in_size_def)
  then have "g ! nat (fst c) \<in> set g" by simp
  with assms have "nat (snd c) < length (g ! nat (fst c))" by (auto simp: shaped_def in_size_def)
  with i show ?thesis by (simp add: cell_at_def)
qed

lemma neighbour_ok_pure:
  assumes "grid_ok m"
  shows "neighbour_ok m mode n = Inr (isInMap m n \<and> (passable_clear m n \<or> mode \<noteq> []))"
proof (cases "isInMap m n")
  case False
  then show ?thesis by (simp add: neighbour_ok_def)
next
  case True
  then have g: "getitem2 (mapGrid m) n = Inr (cell_at (mapGrid m) n)"
    using assms by (intro getitem2_at[of "MAPSIZE m"]) (auto simp: grid_ok_def in_size_isInMap)
  show ?thesis
  proof (cases "cell_at (mapGrid m) n")
    case None
    with True g show ?thesis by (simp add: neighbour_ok_def passable_clear_def)
  next
    case (Some t)
    with True g show ?thesis
      by (auto simp: neighbour_ok_def passable_clear_def tileIsMist_def)
  qed
qed

lemma getNeighbours_nbrs:
  "grid_ok m \<Longrightarrow> getNeighbours m c mode = Inr (nbrs m mode c)"
  unfolding getNeighbours_def nbrs_def adjacent4_def
  by (rule filter_err_Inr) (simp add: neighbour_ok_pure)

lemma nbrs_inmap: "u \<in> set (nbrs m mode c) \<Longrightarrow> isInMap m u"
  by (simp add: nbrs_def)

lemma nbrs_adjacent: "u \<in> set (nbrs m mode c) \<Longrightarrow> u \<in> set (adjacent4 c)"
  by (simp add: nbrs_def)

lemma distinct_adjacent4: "distinct (adjacent4 c)"
  by (simp add: adjacent4_def)

lemma distinct_nbrs: "distinct (nbrs m mode c)"
  by (simp add: nbrs_def distinct_adjacent4)

lemma adjacent4_neq: "u \<in> set (adjacent4 c) \<Longrightarrow> u \<noteq> c"
  by (cases c) (auto simp: adjacent4_def)

subsection \<open>The loop over the neighbours\<close>

lemma visit_vis:
  assumes "shaped sz V" "\<And>p. p \<in> set ns \<Longrightarrow> in_size sz p"
  shows "visit V Q v ns = Inr (vis V Q v ns)"
  using assms
proof (induction ns arbitrary: V Q)
  case Nil
  then show ?case by simp
next
  case (Cons p ps)
  have p: "in_size sz p" using Cons.prems(2) by simp
  have g: "getitem2 V p = Inr (cell_at V p)" by (rule getitem2_at[OF Cons.prems(1) p])
  have s: "setitem2 V p (VParent v) = Inr (cell_put V p (VParent v))"
    by (rule setitem2_put[OF Cons.prems(1) p])
  show ?case
  proof (cases "cell_at V p = VZero")
    case True
    have "visit (cell_put V p (VParent v)) (Q @ [p]) v ps = Inr (vis (cell_put V p (VParent v)) (Q @ [p]) v ps)"
      using Cons.prems by (intro Cons.IH shaped_put) auto
    with True g s show ?thesis by simp
  next
    case False
    have "visit V Q v ps = Inr (vis V Q v ps)"
      using Cons.prems by (intro Cons.IH) auto
    with False g show ?thesis by simp
  qed
qed

lemma shaped_vis: "shaped sz V \<Longrightarrow> shaped sz (fst (vis V Q v ns))"
  by (induction ns arbitrary: V Q) (auto simp: shaped_put)

lemma at_vis:
  assumes "shaped sz V" "\<And>p. p \<in> set ns \<Longrightarrow> in_size sz p" "in_size sz c"
  shows "cell_at (fst (vis V Q v ns)) c
           = (if c \<in> set ns \<and> cell_at V c = VZero then VParent v else cell_at V c)"
  using assms
proof (induction ns arbitrary: V Q)
  case Nil
  then show ?case by simp
next
  case (Cons p ps)
  have p: "in_size sz p" using Cons.prems(2) by simp
  show ?case
  proof (cases "cell_at V p = VZero")
    case True
    let ?V = "cell_put V p (VParent v)"
    have sh: "shaped sz ?V" by (rule shaped_put[OF Cons.prems(1)])
    have ih: "cell_at (fst (vis ?V (Q @ [p]) v ps)) c
           = (if c \<in> set ps \<and> cell_at ?V c = VZero then VParent v else cell_at ?V c)"
      using Cons.prems by (intro Cons.IH sh) auto
    have ap: "cell_at ?V c = (if c = p then VParent v else cell_at V c)"
      by (rule at_put[OF Cons.prems(1) p Cons.prems(3)])
    from True ih ap show ?thesis by auto
  next
    case False
    have ih: "cell_at (fst (vis V Q v ps)) c
           = (if c \<in> set ps \<and> cell_at V c = VZero then VParent v else cell_at V c)"
      using Cons.prems by (intro Cons.IH) auto
    from False ih show ?thesis by auto
  qed
qed

lemma snd_vis:
  assumes "shaped sz V" "\<And>p. p \<in> set ns \<Longrightarrow> in_size sz p" "distinct ns"
  shows "snd (vis V Q v ns) = Q @ filter (\<lambda>p. cell_at V p = VZero) ns"
  using assms
proof (induction ns arbitrary: V Q)
  case Nil
  then show ?case by simp
next
  case (Cons p ps)
  have p: "in_size sz p" using Cons.prems(2) by simp
  show ?case
  proof (cases "cell_at V p = VZero")
    case True
    let ?V = "cell_put V p (VParent v)"
    have sh: "shaped sz ?V" by (rule shaped_put[OF Cons.prems(1)])
    have ih: "snd (vis ?V (Q @ [p]) v ps) = (Q @ [p]) @ filter (\<lambda>q. cell_at ?V q = VZero) ps"
      using Cons.prems by (intro Cons.IH sh) auto
    have "\<And>q. q \<in> set ps \<Longrightarrow> cell_at ?V q = cell_at V q"
    proof -
      fix q assume q: "q \<in> set ps"
      then have "q \<noteq> p" using Cons.prems(3) by auto
      moreover have "in_size sz q" using q Cons.prems(2) by simp
      ultimately show "cell_at ?V q = cell_at V q"
        using at_put[OF Cons.prems(1) p, of q "VParent v"] by simp
    qed
    then have "filter (\<lambda>q. cell_at ?V q = VZero) ps = filter (\<lambda>q. cell_at V q = VZero) ps"
      by (intro filter_cong) auto
    with True ih show ?thesis by simp
  next
    case False
    have ih: "snd (vis V Q v ps) = Q @ filter (\<lambda>q. cell_at V q = VZero) ps"
      using Cons.prems by (intro Cons.IH) auto
    from False ih show ?thesis by simp
  qed
qed

subsection \<open>Walking the parents back\<close>

lemma chain_path: "rev (butlast (v # chain V v n)) = path_of V v n"
proof (induction n arbitrary: v)
  case 0
  then show ?case by simp
next
  case (Suc k)
  have "butlast (v # chain V v (Suc k)) = v # butlast (parent V v # chain V (parent V v) k)"
    by simp
  then show ?case using Suc.IH[of "parent V v"] by simp
qed

lemma length_path_of: "length (path_of V v n) = n"
  by (induction n arbitrary: v) auto

lemma walk_ok_append:
  "walk_ok m mode c (ws @ [u]) = (walk_ok m mode c ws \<and> edge m mode (last (c # ws)) u)"
  by (induction ws arbitrary: c) auto

lemma tree_inv_root_only_0:
  assumes "tree_inv m mode root V d" "is_visited m V v" "d v = 0"
  shows "v = root"
proof (rule ccontr)
  assume "v \<noteq> root"
  moreover from assms(2) obtain p where "isInMap m v" "cell_at V v = VParent p"
    by (auto simp: is_visited_def)
  ultimately have "d v = Suc (d p)" using assms(1) unfolding tree_inv_def by blast
  with assms(3) show False by simp
qed

lemma tree_inv_parent:
  assumes "tree_inv m mode root V d" "is_visited m V v" "v \<noteq> root"
  shows "is_visited m V (parent V v) \<and> d v = Suc (d (parent V v)) \<and> edge m mode (parent V v) v
         \<and> cell_at V v = VParent (parent V v)"
proof -
  from assms(2) obtain p where p: "isInMap m v" "cell_at V v = VParent p"
    by (auto simp: is_visited_def)
  then have "parent V v = p" by (simp add: parent_def)
  moreover have "is_visited m V p \<and> d v = Suc (d p) \<and> edge m mode p v"
    using assms(1,3) p unfolding tree_inv_def by blast
  ultimately show ?thesis using p by simp
qed

lemma walk_chain:
  assumes "tree_inv m mode root V d"
  shows "is_visited m V v \<Longrightarrow> d v = n \<Longrightarrow> walk V v path = Some (Inr (path @ chain V v n))"
proof (induction n arbitrary: v path)
  case 0
  have vr: "v = root" by (rule tree_inv_root_only_0[OF assms "0.prems"(1) "0.prems"(2)])
  from assms have sh: "shaped (MAPSIZE m) V" and ins: "in_size (MAPSIZE m) root"
    and rt: "cell_at V root = VParent root"
    by (auto simp: tree_inv_def in_size_isInMap)
  have g: "getitem2 V root = Inr (VParent root)"
    using getitem2_at[OF sh ins] rt by simp
  have "walk V root path = Some (Inr path)" by (rule walk_root[OF g])
  then show ?case unfolding vr by simp
next
  case (Suc k)
  have "d root = 0" using assms by (simp add: tree_inv_def)
  with Suc.prems(2) have ne: "v \<noteq> root" by auto
  note par = tree_inv_parent[OF assms Suc.prems(1) ne]
  let ?p = "parent V v"
  from par Suc.prems(2) have dp: "d ?p = k" by simp
  from par have pv: "?p \<noteq> v" by auto
  from assms Suc.prems(1) have "shaped (MAPSIZE m) V" "in_size (MAPSIZE m) v"
    by (auto simp: tree_inv_def is_visited_def in_size_isInMap)
  then have "getitem2 V v = Inr (cell_at V v)" by (rule getitem2_at)
  with par have g: "getitem2 V v = Inr (VParent ?p)" by simp
  have "walk V v path = walk V ?p (path @ [?p])"
    by (subst walk.simps) (simp add: g pv)
  also have "\<dots> = Some (Inr ((path @ [?p]) @ chain V ?p k))"
    using par dp by (intro Suc.IH) auto
  finally show ?case by simp
qed

lemma path_of_walk:
  assumes "tree_inv m mode root V d"
  shows "is_visited m V v \<Longrightarrow> d v = n \<Longrightarrow>
         walk_ok m mode root (path_of V v n) \<and> last (root # path_of V v n) = v"
proof (induction n arbitrary: v)
  case 0
  have "v = root" by (rule tree_inv_root_only_0[OF assms "0.prems"(1) "0.prems"(2)])
  then show ?case by simp
next
  case (Suc k)
  have "d root = 0" using assms by (simp add: tree_inv_def)
  with Suc.prems(2) have ne: "v \<noteq> root" by auto
  note par = tree_inv_parent[OF assms Suc.prems(1) ne]
  let ?p = "parent V v"
  from par Suc.prems(2) have dp: "d ?p = k" by simp
  from Suc.IH[of ?p] par dp
  have ih: "walk_ok m mode root (path_of V ?p k)" "last (root # path_of V ?p k) = ?p" by auto
  with par show ?case by (simp add: walk_ok_append)
qed

subsection \<open>Actions along a walk\<close>

lemma adjacent_face: "w \<in> set (adjacent4 c) \<Longrightarrow> \<exists>f. getTargetFace c w = Inr f"
  by (cases c) (auto simp: adjacent4_def getTargetFace_def Let_def)

lemma dirChange_turns:
  "getTargetFace c w = Inr f \<Longrightarrow>
   \<exists>dirs. dirChange c face w = Inr (dirs, f) \<and> moves dirs = 0
      \<and> set dirs \<subseteq> {TURN_LEFT, TURN_RIGHT} \<and> length dirs \<le> 2"
  by (auto simp: dirChange_def moves_def)

lemma moves_append [simp]: "moves (xs @ ys) = moves xs + moves ys"
  by (simp add: moves_def)

lemma getActions_loop_walk:
  "walk_ok m mode c ws \<Longrightarrow>
   \<exists>acts. getActions_loop c face ws acc = Inr acts \<and> moves acts = moves acc + length ws
          \<and> set acts \<subseteq> set acc \<union> {TURN_LEFT, TURN_RIGHT, STEP_FORWARD}
          \<and> length acts \<le> length acc + 3 * length ws"
proof (induction ws arbitrary: c face acc)
  case Nil
  then show ?case by auto
next
  case (Cons w ws)
  from Cons.prems have "w \<in> set (adjacent4 c)" by (auto simp: edge_def dest: nbrs_adjacent)
  then obtain f where f: "getTargetFace c w = Inr f" using adjacent_face by blast
  from dirChange_turns[OF f, of face] obtain dirs where
    dc: "dirChange c face w = Inr (dirs, f)" and m0: "moves dirs = 0"
    and t: "set dirs \<subseteq> {TURN_LEFT, TURN_RIGHT}" and l: "length dirs \<le> 2"
    by blast
  from Cons.prems have "walk_ok m mode w ws" by simp
  from Cons.IH[OF this, of f "acc @ dirs @ [STEP_FORWARD]"] obtain acts where
    a: "getActions_loop w f ws (acc @ dirs @ [STEP_FORWARD]) = Inr acts"
       "moves acts = moves (acc @ dirs @ [STEP_FORWARD]) + length ws"
       "set acts \<subseteq> set (acc @ dirs @ [STEP_FORWARD]) \<union> {TURN_LEFT, TURN_RIGHT, STEP_FORWARD}"
       "length acts \<le> length (acc @ dirs @ [STEP_FORWARD]) + 3 * length ws"
    by blast
  have ms: "moves [STEP_FORWARD] = 1" by (simp add: moves_def)
  have "getActions_loop c face (w # ws) acc = Inr acts" using a(1) dc by simp
  moreover have "moves acts = moves acc + length (w # ws)" using a(2) m0 ms by simp
  moreover have "set acts \<subseteq> set acc \<union> {TURN_LEFT, TURN_RIGHT, STEP_FORWARD}"
    using a(3) t by auto
  moreover have "length acts \<le> length acc + 3 * length (w # ws)" using a(4) l by simp
  ultimately show ?case by blast
qed

lemma getActions_walk:
  assumes "description m = Some dsc" "walk_ok m mode root ws"
  shows "\<exists>acts. getActions m root ws = Inr acts \<and> moves acts = length ws
           \<and> set acts \<subseteq> {TURN_LEFT, TURN_RIGHT, STEP_FORWARD} \<and> length acts \<le> 3 * length ws"
proof -
  from getActions_loop_walk[OF assms(2), of "facing dsc" "[]"]
  show ?thesis using assms(1) by (simp add: getActions_def moves_def)
qed

subsection \<open>One turn of the main loop keeps the tree\<close>

lemma tree_inv_step:
  assumes inv: "tree_inv m mode root V d" and v: "is_visited m V v"
    and V': "V' = fst (vis V Q v (nbrs m mode v))"
    and d': "d' = (\<lambda>c. if c \<in> set (nbrs m mode v) \<and> cell_at V c = VZero then Suc (d v) else d c)"
  shows "tree_inv m mode root V' d'"
    and "\<And>c. is_visited m V' c = (is_visited m V c \<or> (c \<in> set (nbrs m mode v) \<and> cell_at V c = VZero))"
    and "\<And>c. is_visited m V c \<Longrightarrow> d' c = d c"
proof -
  let ?ns = "nbrs m mode v"
  from inv have sh: "shaped (MAPSIZE m) V" by (simp add: tree_inv_def)
  have nin: "\<And>p. p \<in> set ?ns \<Longrightarrow> in_size (MAPSIZE m) p"
    using nbrs_inmap by (simp add: in_size_isInMap[symmetric])
  have at': "\<And>c. isInMap m c \<Longrightarrow>
      cell_at V' c = (if c \<in> set ?ns \<and> cell_at V c = VZero then VParent v else cell_at V c)"
    unfolding V' using at_vis[OF sh nin] by (simp add: in_size_isInMap)
  show vis': "\<And>c. is_visited m V' c = (is_visited m V c \<or> (c \<in> set ?ns \<and> cell_at V c = VZero))"
  proof -
    fix c
    show "is_visited m V' c = (is_visited m V c \<or> (c \<in> set ?ns \<and> cell_at V c = VZero))"
    proof (cases "isInMap m c")
      case True
      with at'[OF True] show ?thesis by (auto simp: is_visited_def)
    next
      case False
      then have "c \<notin> set ?ns" using nbrs_inmap by blast
      with False show ?thesis by (simp add: is_visited_def)
    qed
  qed
  show keep: "\<And>c. is_visited m V c \<Longrightarrow> d' c = d c"
    by (auto simp: d' is_visited_def)
  have shV': "shaped (MAPSIZE m) V'" unfolding V' by (rule shaped_vis[OF sh])
  from inv have rin: "isInMap m root" and rt: "cell_at V root = VParent root" and d0: "d root = 0"
    by (simp_all add: tree_inv_def)
  have rt': "cell_at V' root = VParent root" using at'[OF rin] rt by simp
  have d0': "d' root = 0" using d0 rt by (simp add: d')
  have known: "\<And>c. isInMap m c \<Longrightarrow>
           (cell_at V' c = VZero \<longrightarrow> cell_at (mapGrid m) c \<noteq> None) \<and>
           (cell_at V' c = VNone \<longrightarrow> cell_at (mapGrid m) c = None)"
  proof -
    fix c assume c: "isInMap m c"
    from inv c have old: "(cell_at V c = VZero \<longrightarrow> cell_at (mapGrid m) c \<noteq> None) \<and>
           (cell_at V c = VNone \<longrightarrow> cell_at (mapGrid m) c = None)"
      unfolding tree_inv_def by blast
    with at'[OF c] show "(cell_at V' c = VZero \<longrightarrow> cell_at (mapGrid m) c \<noteq> None) \<and>
           (cell_at V' c = VNone \<longrightarrow> cell_at (mapGrid m) c = None)"
      by (auto split: if_splits)
  qed
  have vv': "is_visited m V' v" using v vis' by simp
  have par: "\<And>c p. isInMap m c \<and> cell_at V' c = VParent p \<and> c \<noteq> root \<Longrightarrow>
           is_visited m V' p \<and> d' c = Suc (d' p) \<and> edge m mode p c"
  proof -
    fix c p assume a: "isInMap m c \<and> cell_at V' c = VParent p \<and> c \<noteq> root"
    then have c: "isInMap m c" by simp
    show "is_visited m V' p \<and> d' c = Suc (d' p) \<and> edge m mode p c"
    proof (cases "c \<in> set ?ns \<and> cell_at V c = VZero")
      case True
      with at'[OF c] a have pv: "p = v" by simp
      from inv c True have "cell_at (mapGrid m) c \<noteq> None" unfolding tree_inv_def by blast
      with True have e: "edge m mode v c" by (simp add: edge_def)
      have "d' c = Suc (d v)" using True by (simp add: d')
      moreover have "d' v = d v" using keep[OF v] .
      ultimately show ?thesis using pv vv' e by simp
    next
      case False
      with at'[OF c] a have old: "cell_at V c = VParent p" by (auto split: if_splits)
      with inv a have o: "is_visited m V p \<and> d c = Suc (d p) \<and> edge m mode p c"
        unfolding tree_inv_def by blast
      have "is_visited m V c" using c old by (auto simp: is_visited_def)
      then have "d' c = d c" by (rule keep)
      moreover have "d' p = d p" using o keep by blast
      moreover have "is_visited m V' p" using o vis' by blast
      ultimately show ?thesis using o by simp
    qed
  qed
  show "tree_inv m mode root V' d'"
    unfolding tree_inv_def using shV' rin rt' d0' known par by blast
qed

lemma vis_queue:
  assumes "shaped (MAPSIZE m) V"
  shows "snd (vis V Q v (nbrs m mode v)) = Q @ filter (\<lambda>p. cell_at V p = VZero) (nbrs m mode v)"
proof -
  have nin: "\<And>p. p \<in> set (nbrs m mode v) \<Longrightarrow> in_size (MAPSIZE m) p"
    using nbrs_inmap by (simp add: in_size_isInMap[symmetric])
  show ?thesis by (rule snd_vis[OF assms nin distinct_nbrs])
qed

lemma visit_nbrs:
  assumes "shaped (MAPSIZE m) V"
  shows "visit V Q v (nbrs m mode v) = Inr (vis V Q v (nbrs m mode v))"
proof -
  have nin: "\<And>p. p \<in> set (nbrs m mode v) \<Longrightarrow> in_size (MAPSIZE m) p"
    using nbrs_inmap by (simp add: in_size_isInMap[symmetric])
  show ?thesis by (rule visit_vis[OF assms nin])
qed

subsection \<open>The search returns\<close>

lemma hit_result:
  assumes inv: "tree_inv m mode root V d" and v: "is_visited m V v"
    and dsc: "description m = Some dsc"
  shows "\<exists>acts. (case walk V v [v] of
             None \<Rightarrow> None
           | Some (Inl e) \<Rightarrow> Some (Inl e, popped @ [v])
           | Some (Inr path) \<Rightarrow>
               Some (ebind (getActions m root (rev (butlast path)))
                       (\<lambda>acts. Inr (acts, Some v)), popped @ [v]))
         = Some (Inr (acts, Some v), popped @ [v])
       \<and> moves acts = d v \<and> set acts \<subseteq> {TURN_LEFT, TURN_RIGHT, STEP_FORWARD}
       \<and> length acts \<le> 3 * d v"
proof -
  have w: "walk V v [v] = Some (Inr ([v] @ chain V v (d v)))"
    by (rule walk_chain[OF inv v refl])
  have p: "rev (butlast ([v] @ chain V v (d v))) = path_of V v (d v)"
    using chain_path[of v V "d v"] by simp
  from path_of_walk[OF inv v refl] have wk: "walk_ok m mode root (path_of V v (d v))" by simp
  from getActions_walk[OF dsc wk] obtain acts where
    a: "getActions m root (path_of V v (d v)) = Inr acts" "moves acts = length (path_of V v (d v))"
       "set acts \<subseteq> {TURN_LEFT, TURN_RIGHT, STEP_FORWARD}" "length acts \<le> 3 * length (path_of V v (d v))"
    by blast
  show ?thesis using w p a by (auto simp: length_path_of)
qed

lemma loop_returns:
  "grid_ok m \<Longrightarrow> description m = Some dsc \<Longrightarrow> total_target m tg \<Longrightarrow>
   tree_inv m mode root V d \<Longrightarrow>
   (\<forall>q \<in> set Q. is_visited m V q \<and> cell_at (mapGrid m) q \<noteq> None) \<Longrightarrow>
   \<exists>res popped'. shortestPath_loop m root tg radius mode V Q r popped = Some (Inr res, popped')"
proof (induction m root tg radius mode V Q r popped arbitrary: d rule: shortestPath_loop.induct)
  case (1 m root tg radius mode V Q r popped)
  note g = "1.prems"(1) and dsc = "1.prems"(2) and tot = "1.prems"(3) and inv = "1.prems"(4)
    and qs = "1.prems"(5)
  show ?case
  proof (cases "Q = [] \<or> \<not> within_radius radius r")
    case True
    from loop_unfold_stop[OF True] show ?thesis by simp
  next
    case False
    then obtain v Q' where Q: "Q = v # Q'" and wr: "within_radius radius r"
      by (cases Q) auto
    note unf = loop_unfold_Cons[OF wr, of m root tg mode V v Q' popped]
    from qs Q have v: "is_visited m V v" and kv: "cell_at (mapGrid m) v \<noteq> None" by auto
    from v have vin: "isInMap m v" by (simp add: is_visited_def)
    from tot vin kv obtain b where b: "targetFound m v tg = Inr b"
      unfolding total_target_def by blast
    show ?thesis
    proof (cases b)
      case True
      from hit_result[OF inv v dsc, of popped] obtain acts where
        "(case walk V v [v] of
             None \<Rightarrow> None
           | Some (Inl e) \<Rightarrow> Some (Inl e, popped @ [v])
           | Some (Inr path) \<Rightarrow>
               Some (ebind (getActions m root (rev (butlast path)))
                       (\<lambda>acts. Inr (acts, Some v)), popped @ [v]))
         = Some (Inr (acts, Some v), popped @ [v])" by blast
      with unf b True Q show ?thesis by simp
    next
      case False
      then have tf: "targetFound m v tg = Inr False" using b by simp
      let ?ns = "nbrs m mode v"
      have ns: "getNeighbours m v mode = Inr ?ns" by (rule getNeighbours_nbrs[OF g])
      from inv have sh: "shaped (MAPSIZE m) V" by (simp add: tree_inv_def)
      have vs: "visit V Q' v ?ns = Inr (vis V Q' v ?ns)" by (rule visit_nbrs[OF sh])
      obtain V' Q'' where VQ: "vis V Q' v ?ns = (V', Q'')" by (cases "vis V Q' v ?ns")
      let ?d' = "\<lambda>c. if c \<in> set ?ns \<and> cell_at V c = VZero then Suc (d v) else d c"
      have V': "V' = fst (vis V Q' v ?ns)" using VQ by simp
      note step = tree_inv_step[OF inv v V' refl]
      have Q'': "Q'' = Q' @ filter (\<lambda>p. cell_at V p = VZero) ?ns"
        using vis_queue[OF sh, of Q' v mode] VQ by simp
      have qs': "\<forall>q \<in> set Q''. is_visited m V' q \<and> cell_at (mapGrid m) q \<noteq> None"
      proof
        fix q assume "q \<in> set Q''"
        then have "q \<in> set Q' \<or> (q \<in> set ?ns \<and> cell_at V q = VZero)" using Q'' by auto
        then show "is_visited m V' q \<and> cell_at (mapGrid m) q \<noteq> None"
        proof
          assume "q \<in> set Q'"
          with qs Q step(2) show ?thesis by auto
        next
          assume n: "q \<in> set ?ns \<and> cell_at V q = VZero"
          then have "isInMap m q" using nbrs_inmap by blast
          with inv n have "cell_at (mapGrid m) q \<noteq> None" unfolding tree_inv_def by blast
          with n step(2) show ?thesis by auto
        qed
      qed
      from "1.IH"[OF Q wr tf refl ns vs VQ[symmetric] g dsc tot step(1) qs']
      obtain res popped' where
        "shortestPath_loop m root tg radius mode V' Q'' (r + 1) (popped @ [v]) = Some (Inr res, popped')"
        by blast
      with unf tf ns vs VQ Q show ?thesis by simp
    qed
  qed
qed

subsection \<open>The start of a search\<close>

lemma fresh_cell_not_parent: "fresh_cell t \<noteq> VParent p"
  by (simp add: fresh_cell_def)

lemma tree_inv_init:
  assumes g: "grid_ok m" and r: "isInMap m root"
  shows "tree_inv m mode root (cell_put (map (map fresh_cell) (mapGrid m)) root (VParent root)) (\<lambda>c. 0)"
proof -
  let ?T = "map (map fresh_cell) (mapGrid m)"
  let ?V = "cell_put ?T root (VParent root)"
  from g have sg: "shaped (MAPSIZE m) (mapGrid m)" by (simp add: grid_ok_def)
  have s0: "shaped (MAPSIZE m) ?T" by (rule shaped_fresh[OF sg])
  have rs: "in_size (MAPSIZE m) root" using r by (simp add: in_size_isInMap)
  have at1: "\<And>c. isInMap m c \<Longrightarrow> cell_at ?V c = (if c = root then VParent root else fresh_cell (cell_at (mapGrid m) c))"
    using at_put[OF s0 rs] at_fresh[OF sg] by (simp add: in_size_isInMap)
  have "shaped (MAPSIZE m) ?V" by (rule shaped_put[OF s0])
  moreover have "cell_at ?V root = VParent root" using at1[OF r] by simp
  moreover have "\<forall>c. isInMap m c \<longrightarrow>
           (cell_at ?V c = VZero \<longrightarrow> cell_at (mapGrid m) c \<noteq> None) \<and>
           (cell_at ?V c = VNone \<longrightarrow> cell_at (mapGrid m) c = None)"
    using at1 by (auto simp: fresh_cell_def split: if_splits)
  moreover have "\<forall>c p. isInMap m c \<and> cell_at ?V c = VParent p \<and> c \<noteq> root \<longrightarrow>
           is_visited m ?V p \<and> (0::nat) = Suc 0 \<and> edge m mode p c"
  proof (intro allI impI)
    fix c p assume a: "isInMap m c \<and> cell_at ?V c = VParent p \<and> c \<noteq> root"
    then have "fresh_cell (cell_at (mapGrid m) c) = VParent p" using at1[of c] by simp
    then show "is_visited m ?V p \<and> (0::nat) = Suc 0 \<and> edge m mode p c"
      by (simp add: fresh_cell_not_parent)
  qed
  ultimately show ?thesis using r unfolding tree_inv_def by simp
qed

lemma shortestPath_trace_start:
  assumes g: "grid_ok m" and r: "isInMap m root"
  shows "shortestPath_trace m root tg radius mode =
           shortestPath_loop m root tg radius mode
             (cell_put (map (map fresh_cell) (mapGrid m)) root (VParent root)) [root] 0 []"
proof -
  from g have sg: "shaped (MAPSIZE m) (mapGrid m)" by (simp add: grid_ok_def)
  have s0: "shaped (MAPSIZE m) (map (map fresh_cell) (mapGrid m))" by (rule shaped_fresh[OF sg])
  have rs: "in_size (MAPSIZE m) root" using r by (simp add: in_size_isInMap)
  show ?thesis
    by (simp add: shortestPath_trace_def Visited_init_ok[OF g] setitem2_put[OF s0 rs])
qed

lemma root_visited_init:
  assumes g: "grid_ok m" and r: "isInMap m root"
  shows "is_visited m (cell_put (map (map fresh_cell) (mapGrid m)) root (VParent root)) root"
  using tree_inv_init[OF g r, of "[]"] r by (auto simp: tree_inv_def is_visited_def)

lemma shortestPath_returns:
  assumes g: "grid_ok m" and r: "isInMap m root" and k: "cell_at (mapGrid m) root \<noteq> None"
    and dsc: "description m = Some dsc" and tot: "total_target m tg"
  shows "\<exists>res. shortestPath m root tg radius mode = Some (Inr res)"
proof -
  let ?V = "cell_put (map (map fresh_cell) (mapGrid m)) root (VParent root)"
  have inv: "tree_inv m mode root ?V (\<lambda>c. 0)" by (rule tree_inv_init[OF g r])
  have "is_visited m ?V root" using inv r by (auto simp: tree_inv_def is_visited_def)
  with k have qs: "\<forall>q \<in> set [root]. is_visited m ?V q \<and> cell_at (mapGrid m) q \<noteq> None" by simp
  from loop_returns[OF g dsc tot inv qs, of radius 0 "[]"] obtain res popped' where
    "shortestPath_loop m root tg radius mode ?V [root] 0 [] = Some (Inr res, popped')" by blast
  then show ?thesis
    by (simp add: shortestPath_def shortestPath_trace_start[OF g r])
qed

lemma findTarget_returns:
  assumes "map_ok m" "total_target m tg"
  shows "\<exists>res. findTarget m tg radius = Some (Inr res)"
proof -
  from assms(1) obtain root dsc where p: "position m = Some root" and r: "isInMap m root"
    and k: "cell_at (mapGrid m) root \<noteq> None" and d: "description m = Some dsc" and g: "grid_ok m"
    by (auto simp: map_ok_def split: option.splits)
  from shortestPath_returns[OF g r k d assms(2)] p show ?thesis by (simp add: findTarget_def)
qed

lemma total_consumable: "grid_ok m \<Longrightarrow> total_target m (TConsumableDescription n)"
  unfolding total_target_def
proof (intro allI impI)
  fix c assume g: "grid_ok m" and c: "isInMap m c \<and> cell_at (mapGrid m) c \<noteq> None"
  then have "getitem2 (mapGrid m) c = Inr (cell_at (mapGrid m) c)"
    by (intro getitem2_at[of "MAPSIZE m"]) (auto simp: grid_ok_def in_size_isInMap)
  with c show "\<exists>b. targetFound m c (TConsumableDescription n) = Inr b"
    by (auto simp: need_tile_def)
qed

lemma total_coords: "grid_ok m \<Longrightarrow> total_target m (TCoords t)"
  unfolding total_target_def
proof (intro allI impI)
  fix c assume g: "grid_ok m" and c: "isInMap m c \<and> cell_at (mapGrid m) c \<noteq> None"
  then have "getitem2 (mapGrid m) c = Inr (cell_at (mapGrid m) c)"
    by (intro getitem2_at[of "MAPSIZE m"]) (auto simp: grid_ok_def in_size_isInMap)
  then show "\<exists>b. targetFound m c (TCoords t) = Inr b"
    by auto
qed

subsection \<open>The map after an update\<close>

lemma setitem2_shape:
  assumes "setitem2 T c v = Inr T'" "shaped sz T"
  shows "shaped sz T'"
proof -
  from assms(1) obtain i where i: "py_index T (fst c) = Some i"
    by (auto simp: setitem2_def getitem_def split: option.splits)
  from assms(1) i obtain j where j: "py_index (T ! i) (snd c) = Some j"
    by (auto simp: setitem2_def getitem_def setitem_def split: option.splits)
  from assms(1) i j have T': "T' = T[i := (T ! i)[j := v]]"
    by (auto simp: setitem2_def getitem_def setitem_def)
  have il: "i < length T" using i by (rule py_index_Some)
  then have "T ! i \<in> set T" by simp
  with assms(2) have r: "length ((T ! i)[j := v]) = nat (snd sz)" by (simp add: shaped_def)
  have sub: "set T' \<subseteq> insert ((T ! i)[j := v]) (set T)"
    unfolding T' by (rule set_update_subset_insert)
  have "\<forall>row \<in> set T'. length row = nat (snd sz)"
  proof
    fix row assume "row \<in> set T'"
    with sub have "row = (T ! i)[j := v] \<or> row \<in> set T" by auto
    with r assms(2) show "length row = nat (snd sz)" by (auto simp: shaped_def)
  qed
  moreover have "length T' = length T" by (simp add: T')
  ultimately show ?thesis using assms(2) by (simp add: shaped_def)
qed

lemma setitem2_keeps_known:
  assumes "setitem2 T c (Some t) = Inr T'" "shaped sz T" "in_size sz p" "cell_at T p \<noteq> None"
  shows "cell_at T' p \<noteq> None"
proof -
  from assms(1) obtain i where i: "py_index T (fst c) = Some i"
    by (auto simp: setitem2_def getitem_def split: option.splits)
  from assms(1) i obtain j where j: "py_index (T ! i) (snd c) = Some j"
    by (auto simp: setitem2_def getitem_def setitem_def split: option.splits)
  from assms(1) i j have T': "T' = T[i := (T ! i)[j := Some t]]"
    by (auto simp: setitem2_def getitem_def setitem_def)
  have il: "i < length T" using i by (rule py_index_Some)
  have jl: "j < length (T ! i)" using j by (rule py_index_Some)
  from assms(2,3) have pl: "nat (fst p) < length T" by (auto simp: shaped_def in_size_def)
  show ?thesis
  proof (cases "nat (fst p) = i")
    case True
    with il have "T' ! nat (fst p) = (T ! i)[j := Some t]" by (simp add: T')
    with assms(4) True jl show ?thesis
      by (cases "nat (snd p) = j") (auto simp: cell_at_def)
  next
    case False
    then have "T' ! nat (fst p) = T ! nat (fst p)" by (simp add: T')
    with assms(4) show ?thesis by (simp add: cell_at_def)
  qed
qed

lemma setitem2_known_here:
  assumes "setitem2 T p (Some t) = Inr T'" "shaped sz T" "in_size sz p"
  shows "cell_at T' p \<noteq> None"
proof -
  have "getitem2 T' p = Inr (Some t)" by (rule getitem2_setitem2_same[OF assms(1)])
  moreover have "getitem2 T' p = Inr (cell_at T' p)"
    by (rule getitem2_at[OF setitem2_shape[OF assms(1,2)] assms(3)])
  ultimately show ?thesis by simp
qed

lemma update_tiles_ok:
  "update_tiles m ts = (None, m') \<Longrightarrow> shaped sz (mapGrid m) \<Longrightarrow> in_size sz p \<Longrightarrow>
   cell_at (mapGrid m) p \<noteq> None \<or> p \<in> fst ` set ts \<Longrightarrow>
   shaped sz (mapGrid m') \<and> cell_at (mapGrid m') p \<noteq> None
     \<and> position m' = position m \<and> description m' = description m \<and> MAPSIZE m' = MAPSIZE m"
proof (induction m ts arbitrary: m' rule: update_tiles.induct)
  case (1 m)
  then show ?case by simp
next
  case (2 m c t rest)
  from "2.prems"(1) obtain g where g: "setitem2 (mapGrid m) c (Some (as_tile t)) = Inr g"
    by (cases "setitem2 (mapGrid m) c (Some (as_tile t))") auto
  let ?m1 = "if menhir m = None \<and> d_type t = ''menhir''
             then m\<lparr>mapGrid := g, menhir := Some c\<rparr> else m\<lparr>mapGrid := g\<rparr>"
  from "2.prems"(1) g have rec: "update_tiles ?m1 rest = (None, m')" by simp
  have mg: "mapGrid ?m1 = g" by simp
  have sh: "shaped sz (mapGrid ?m1)" unfolding mg by (rule setitem2_shape[OF g "2.prems"(2)])
  have kn: "cell_at (mapGrid ?m1) p \<noteq> None \<or> p \<in> fst ` set rest"
  proof (cases "cell_at (mapGrid m) p \<noteq> None")
    case True
    then show ?thesis unfolding mg using setitem2_keeps_known[OF g "2.prems"(2,3)] by simp
  next
    case False
    with "2.prems"(4) have "p = c \<or> p \<in> fst ` set rest" by auto
    then show ?thesis
    proof
      assume "p = c"
      then show ?thesis unfolding mg using setitem2_known_here[OF _ "2.prems"(2,3)] g by simp
    qed simp
  qed
  from "2.IH"[OF g rec sh "2.prems"(3) kn] show ?case by auto
qed

lemma Map_update_ok:
  assumes u: "Map_update m k = (None, m')" and g: "grid_ok m" and p: "isInMap m (ck_position k)"
  shows "grid_ok m' \<and> position m' = Some (ck_position k) \<and> isInMap m' (ck_position k)
         \<and> cell_at (mapGrid m') (ck_position k) \<noteq> None"
proof -
  from u obtain own where own: "map_of (visible_tiles k) (ck_position k) = Some own"
    by (cases "map_of (visible_tiles k) (ck_position k)") (auto simp: Map_update_def Let_def)
  let ?m1 = "m\<lparr>position := Some (ck_position k), description := d_character own,
               opponentsAlive := no_of_champions_alive k - 1\<rparr>"
  from u own have ut: "update_tiles ?m1 (visible_tiles k) = (None, m')"
    by (simp add: Map_update_def Let_def)
  from own have "(ck_position k, own) \<in> set (visible_tiles k)" by (rule map_of_SomeD)
  then have mem: "ck_position k \<in> fst ` set (visible_tiles k)" by force
  from g have sh: "shaped (MAPSIZE m) (mapGrid ?m1)" by (simp add: grid_ok_def)
  from p have ins: "in_size (MAPSIZE m) (ck_position k)" by (simp add: in_size_isInMap)
  from update_tiles_ok[OF ut sh ins] mem
  have r: "shaped (MAPSIZE m) (mapGrid m') \<and> cell_at (mapGrid m') (ck_position k) \<noteq> None
     \<and> position m' = position ?m1 \<and> description m' = description ?m1 \<and> MAPSIZE m' = MAPSIZE ?m1"
    by blast
  then show ?thesis using p by (simp add: grid_ok_def isInMap_def)
qed

subsection \<open>A turn on a map that is ready\<close>

lemma update_tiles_size: "update_tiles m ts = (e, m') \<Longrightarrow> MAPSIZE m' = MAPSIZE m"
proof (induction m ts arbitrary: m' rule: update_tiles.induct)
  case (1 m)
  then show ?case by simp
next
  case (2 m c t rest)
  show ?case
  proof (cases "setitem2 (mapGrid m) c (Some (as_tile t))")
    case (Inl err)
    with "2.prems" show ?thesis by simp
  next
    case (Inr g)
    let ?m1 = "if menhir m = None \<and> d_type t = ''menhir''
             then m\<lparr>mapGrid := g, menhir := Some c\<rparr> else m\<lparr>mapGrid := g\<rparr>"
    from "2.prems" Inr have "update_tiles ?m1 rest = (e, m')" by simp
    from "2.IH"[OF Inr this] show ?thesis by simp
  qed
qed

lemma Map_update_size: "Map_update m k = (e, m') \<Longrightarrow> MAPSIZE m' = MAPSIZE m"
proof (cases "map_of (visible_tiles k) (ck_position k)")
  case None
  assume "Map_update m k = (e, m')"
  with None show ?thesis by (auto simp: Map_update_def Let_def)
next
  case (Some own)
  assume "Map_update m k = (e, m')"
  with Some have "update_tiles (m\<lparr>position := Some (ck_position k), description := d_character own,
               opponentsAlive := no_of_champions_alive k - 1\<rparr>) (visible_tiles k) = (e, m')"
    by (simp add: Map_update_def Let_def)
  from update_tiles_size[OF this] show ?thesis by simp
qed

lemma front_tile_fields [simp]:
  "front_tile (kb\<lparr>actionsToMake := q\<rparr>) = front_tile kb"
  "front_tile (kb\<lparr>actionsTarget := t\<rparr>) = front_tile kb"
  "front_tile (kb\<lparr>round_counter := n\<rparr>) = front_tile kb"
  by (simp_all add: front_tile_def)

lemma stepPossible_fields [simp]:
  "stepPossible (kb\<lparr>actionsToMake := q\<rparr>) a = stepPossible kb a"
  "stepPossible (kb\<lparr>actionsTarget := t\<rparr>) a = stepPossible kb a"
  by (simp_all add: stepPossible_def)

lemma front_tile_description:
  "front_tile kb = Inr ft \<Longrightarrow> mapBase kb = Some m \<Longrightarrow> description m \<noteq> None"
  by (auto simp: front_tile_def inFrontCoords_def split: option.splits)

lemma decide_ready:
  assumes mb: "mapBase kb = Some m0" and g: "grid_ok m0" and p: "isInMap m0 (ck_position k)"
    and u: "KnowledgeBase_update kb k = (None, kb1)" and f: "front_tile kb1 = Inr ft"
  shows "\<exists>m1. mapBase kb1 = Some m1 \<and> map_ok m1 \<and> MAPSIZE m1 = MAPSIZE m0"
    and "decide kb k rnd rnd' = choice kb1 rnd rnd'"
    and "round_counter kb1 = round_counter kb \<and> actionsToMake kb1 = actionsToMake kb
         \<and> actionsTarget kb1 = actionsTarget kb \<and> tileNeighbourhood kb1 = tileNeighbourhood kb"
proof -
  from u mb obtain m1 where mu: "Map_update m0 k = (None, m1)" and kb1: "kb1 = kb\<lparr>mapBase := Some m1\<rparr>"
    by (auto simp: KnowledgeBase_update_def split: prod.splits)
  from Map_update_ok[OF mu g p] have ok: "grid_ok m1" "position m1 = Some (ck_position k)"
    "isInMap m1 (ck_position k)" "cell_at (mapGrid m1) (ck_position k) \<noteq> None" by auto
  have m1: "mapBase kb1 = Some m1" by (simp add: kb1)
  from front_tile_description[OF f m1] have "description m1 \<noteq> None" .
  with ok have "map_ok m1" by (simp add: map_ok_def)
  with m1 Map_update_size[OF mu] show "\<exists>m1. mapBase kb1 = Some m1 \<and> map_ok m1 \<and> MAPSIZE m1 = MAPSIZE m0"
    by simp
  show "decide kb k rnd rnd' = choice kb1 rnd rnd'" using u by (simp add: decide_def)
  show "round_counter kb1 = round_counter kb \<and> actionsToMake kb1 = actionsToMake kb
         \<and> actionsTarget kb1 = actionsTarget kb \<and> tileNeighbourhood kb1 = tileNeighbourhood kb"
    by (simp add: kb1)
qed

lemma potion_search_returns:
  "map_ok m \<Longrightarrow> \<exists>path tile. findTarget m (TConsumableDescription n) radius = Some (Inr (path, tile))"
  using findTarget_returns[of m "TConsumableDescription n" radius] total_consumable[of m n]
  by (auto simp: map_ok_def)


lemma choice_scan:
  assumes "mapBase kb = Some m" "map_ok m" "front_tile kb = Inr (Some t)" "attr_character t = None"
    "round_counter kb < 3"
  shows "choice kb rnd rnd' = Some (Inr TURN_RIGHT, kb\<lparr>round_counter := round_counter kb + 1\<rparr>)"
proof -
  from potion_search_returns[OF assms(2)] obtain path tile where
    "findTarget m (TConsumableDescription ''potion'') (Some (tileNeighbourhood kb)) = Some (Inr (path, tile))"
    by blast
  with assms show ?thesis by (simp add: choice_def choice_try_def)
qed

lemma choice_follow:
  assumes "mapBase kb = Some m" "map_ok m" "front_tile kb = Inr (Some t)" "attr_character t = None"
    "\<not> round_counter kb < 3" "actionsToMake kb \<noteq> []"
  shows "choice kb rnd rnd' = (case followTarget kb rnd of
            (Inl e, kb') \<Rightarrow> Some (Inr (checkPossibleAction (Some t) rnd'), kb')
          | (Inr a, kb') \<Rightarrow> Some (Inr a, kb'))"
proof -
  from potion_search_returns[OF assms(2)] obtain path tile where
    "findTarget m (TConsumableDescription ''potion'') (Some (tileNeighbourhood kb)) = Some (Inr (path, tile))"
    by blast
  with assms show ?thesis
    by (cases "followTarget kb rnd") (auto simp: choice_def choice_try_def split: sum.splits)
qed


lemma followTarget_stale:
  "actionsToMake kb = STEP_FORWARD # rest \<Longrightarrow> front_tile kb = Inr (Some t) \<Longrightarrow>
   \<not> tilePassable (Some t) \<or> ''mist'' \<in> set (attr_effects t) \<Longrightarrow>
   followTarget kb rnd
     = (Inr (checkPossibleAction (Some t) rnd), kb\<lparr>actionsToMake := [], actionsTarget := None\<rparr>)"
  by (auto simp: followTarget_def followTarget_none_def stepPossible_def tileIsMist_def Let_def)

subsection \<open>The cells within the radius\<close>

lemma visited_reach:
  assumes "tree_inv m mode root V d" "is_visited m V v" "int (d v) \<le> rad"
  shows "reach_within m mode root rad v"
proof -
  from path_of_walk[OF assms(1,2) refl]
  have "walk_ok m mode root (path_of V v (d v)) \<and> last (root # path_of V v (d v)) = v" .
  with assms(3) show ?thesis
    unfolding reach_within_def by (intro exI[of _ "path_of V v (d v)"]) (simp add: length_path_of)
qed

lemma loop_layers:
  "grid_ok m \<Longrightarrow> tree_inv m mode root V d \<Longrightarrow>
   (\<forall>q \<in> set Q. is_visited m V q \<and> int (d q) \<le> r) \<Longrightarrow>
   int (length popped) = r \<Longrightarrow>
   (\<forall>c \<in> set popped. reach_within m mode root rad c) \<Longrightarrow>
   radius = Some rad \<Longrightarrow>
   shortestPath_loop m root tg radius mode V Q r popped = Some (res, popped') \<Longrightarrow>
   (\<forall>c \<in> set popped'. reach_within m mode root rad c) \<and> int (length popped') \<le> max r (rad + 1)"
proof (induction m root tg radius mode V Q r popped arbitrary: d rule: shortestPath_loop.induct)
  case (1 m root tg radius mode V Q r popped)
  note g = "1.prems"(1) and inv = "1.prems"(2) and qs = "1.prems"(3) and len = "1.prems"(4)
    and pr = "1.prems"(5) and rad = "1.prems"(6) and res = "1.prems"(7)
  show ?case
  proof (cases "Q = [] \<or> \<not> within_radius radius r")
    case True
    from res loop_unfold_stop[OF True, of m root tg mode V popped] have "popped' = popped" by simp
    with pr len show ?thesis by simp
  next
    case False
    then obtain v Q' where Q: "Q = v # Q'" and wr: "within_radius radius r"
      by (cases Q) auto
    from wr rad have rr: "r \<le> rad" by (simp add: within_radius_def)
    note unf = loop_unfold_Cons[OF wr, of m root tg mode V v Q' popped]
    from qs Q have v: "is_visited m V v" and dv: "int (d v) \<le> r" by auto
    have rv: "reach_within m mode root rad v"
      using visited_reach[OF inv v] dv rr by simp
    have here: "(\<forall>c \<in> set (popped @ [v]). reach_within m mode root rad c)
                 \<and> int (length (popped @ [v])) \<le> max r (rad + 1)"
      using pr rv len rr by auto
    show ?thesis
    proof (cases "targetFound m v tg")
      case (Inl e)
      with res unf Q have "popped' = popped @ [v]" by simp
      with here show ?thesis by simp
    next
      case (Inr b)
      show ?thesis
      proof (cases b)
        case True
        have "popped' = popped @ [v]"
        proof (cases "walk V v [v]")
          case None
          with res unf Q Inr True show ?thesis by simp
        next
          case (Some w)
          with res unf Q Inr True show ?thesis by (cases w) auto
        qed
        with here show ?thesis by simp
      next
        case False
        then have tf: "targetFound m v tg = Inr False" using Inr by simp
        let ?ns = "nbrs m mode v"
        have ns: "getNeighbours m v mode = Inr ?ns" by (rule getNeighbours_nbrs[OF g])
        from inv have sh: "shaped (MAPSIZE m) V" by (simp add: tree_inv_def)
        have vs: "visit V Q' v ?ns = Inr (vis V Q' v ?ns)" by (rule visit_nbrs[OF sh])
        obtain V' Q'' where VQ: "vis V Q' v ?ns = (V', Q'')" by (cases "vis V Q' v ?ns")
        let ?d' = "\<lambda>c. if c \<in> set ?ns \<and> cell_at V c = VZero then Suc (d v) else d c"
        have V': "V' = fst (vis V Q' v ?ns)" using VQ by simp
        note step = tree_inv_step[OF inv v V' refl]
        have Q'': "Q'' = Q' @ filter (\<lambda>p. cell_at V p = VZero) ?ns"
          using vis_queue[OF sh, of Q' v mode] VQ by simp
        have qs': "\<forall>q \<in> set Q''. is_visited m V' q \<and> int (?d' q) \<le> r + 1"
        proof
          fix q assume "q \<in> set Q''"
          then have "q \<in> set Q' \<or> (q \<in> set ?ns \<and> cell_at V q = VZero)" using Q'' by auto
          then show "is_visited m V' q \<and> int (?d' q) \<le> r + 1"
          proof
            assume a: "q \<in> set Q'"
            with qs Q have "is_visited m V q" "int (d q) \<le> r" by auto
            with step(2) step(3)[of q] show ?thesis by auto
          next
            assume n: "q \<in> set ?ns \<and> cell_at V q = VZero"
            with step(2) dv show ?thesis by auto
          qed
        qed
        from res unf tf ns vs VQ Q
        have rec: "shortestPath_loop m root tg radius mode V' Q'' (r + 1) (popped @ [v]) = Some (res, popped')"
          by simp
        have len': "int (length (popped @ [v])) = r + 1" using len by simp
        from "1.IH"[OF Q wr tf refl ns vs VQ[symmetric] g step(1) qs' len' _ rad rec] here
        have "(\<forall>c \<in> set popped'. reach_within m mode root rad c)
                \<and> int (length popped') \<le> max (r + 1) (rad + 1)" by blast
        with rr show ?thesis by simp
      qed
    qed
  qed
qed

subsection \<open>The order of a breadth-first search\<close>









subsection \<open>Walks on an obstacle-free map\<close>











lemma targetFound_coords_self: "targetFound m t (TCoords t) = Inr True"
  by simp




section \<open>Properties\<close>

text \<open>
  C9 (as the code has it). \<^verbatim>\<open>getTargetFace\<close> raises exactly when both components of the
  difference of the two cells are non-zero. A zero difference and an axis-aligned
  difference of any length give a facing without an error; a unit step never raises.
\<close>

theorem getTargetFace_raises_iff:
  "((\<exists>e. getTargetFace X Y = Inl e) = (fst X \<noteq> fst Y \<and> snd X \<noteq> snd Y))
   \<and> ((getTargetFace X Y = Inl WrongTargetFace) = (fst X \<noteq> fst Y \<and> snd X \<noteq> snd Y))
   \<and> getTargetFace X (coord_add X (facing_value f)) = Inr f"
  by (cases f) (auto simp: getTargetFace_def Let_def coord_add_def)

text \<open>
  C9, counterexample. The zero difference and an axis-aligned difference of length 3 are
  not unit vectors, and \<^verbatim>\<open>getTargetFace\<close> returns a facing for both instead of raising.
\<close>

theorem getTargetFace_no_raise_counterexample:
  "getTargetFace (2, 2) (2, 2) = Inr DOWN \<and> getTargetFace (0, 0) (3, 0) = Inr RIGHT"
  by (simp add: getTargetFace_def)

text \<open>
  C2, counterexample. An agent plays one turn of a match on \<open>arena2\<close> (the forced scan
  counts it) and is reset for the next match: the round counter is not back to 0.
\<close>

theorem reset_leaks_round_counter_counterexample:
  "round_counter (snd (reset (snd (the (decide kb_fresh obs_free 0 0))) arena2)) \<noteq> 0"
  by code_simp

text \<open>
  C2 (as the code has it). \<^verbatim>\<open>reset\<close> replaces the map by a new one built from the new layout,
  with no menhir, position or description yet, and changes nothing else: the round counter,
  the queued actions and the queued goal keep the values of the previous match.
\<close>

theorem reset_rebuilds_map_only:
  assumes "Map_init a = Inr m"
  shows "reset kb a = (None, kb\<lparr>mapBase := Some m\<rparr>)
       \<and> MAPSIZE m = arena_size a \<and> menhir m = None \<and> position m = None \<and> description m = None
       \<and> round_counter (snd (reset kb a)) = round_counter kb
       \<and> actionsToMake (snd (reset kb a)) = actionsToMake kb
       \<and> actionsTarget (snd (reset kb a)) = actionsTarget kb"
  using assms by (cases "initMap (arena_size a) (terrain a)") (auto simp: reset_def Map_init_def)

theorem reset_rebuilds_map_only_witness:
  "Map_init arena2 = Inr arena2_map
   \<and> reset kb_stale arena2 = (None, kb_stale\<lparr>mapBase := Some arena2_map\<rparr>)
   \<and> actionsToMake (snd (reset kb_stale arena2)) = [STEP_FORWARD, STEP_FORWARD]
   \<and> round_counter (snd (reset kb_stale arena2)) = 3"
proof -
  have h: "Map_init arena2 = Inr arena2_map" by code_simp
  have q: "actionsToMake kb_stale = [STEP_FORWARD, STEP_FORWARD]" "round_counter kb_stale = 3"
    by (simp_all add: kb_stale_def)
  from reset_rebuilds_map_only[OF h, of kb_stale] h q show ?thesis by simp
qed

text \<open>
  C1, the failing input. On the 2 x 2 arena the champion stands in the last column and
  faces RIGHT. \<^verbatim>\<open>choice\<close> reads \<^verbatim>\<open>self.mapBase.map[2][0]\<close> before its \<^verbatim>\<open>try\<close>, and the
  IndexError leaves \<^verbatim>\<open>decide\<close>.
\<close>

theorem decide_raises_at_arena_edge:
  "map_option fst (decide kb_fresh obs_edge 0 0) = Some (Inl IndexError)"
  by code_simp

text \<open>
  C3, the failing input. On the staircase, whose land tiles the champion has all seen, the
  path to the potion has 18 actions, more than the radius 16, and \<^verbatim>\<open>choice\<close> adopts it all
  the same: it returns the first action and queues the other 17, with the potion's tile as
  the goal.
\<close>

theorem potion_plan_adopted_beyond_radius:
  "map_option (map_sum id (\<lambda>r. (length (fst r), snd r)))
       (findTarget map_stairs (TConsumableDescription ''potion'') (Some 16))
     = Some (Inr (18, Some (5, 4)))
   \<and> map_option (\<lambda>r. (fst r, length (actionsToMake (snd r)), actionsTarget (snd r)))
       (choice kb_stairs 0 0)
     = Some (Inr TURN_LEFT, 17, Some (5, 4))"
  by code_simp

text \<open>
  C4, counterexample. In the first turn of the match, with another champion on the tile
  ahead, \<^verbatim>\<open>decide\<close> returns ATTACK and the round counter stays 0.
\<close>

theorem forced_scan_attack_counterexample:
  "map_option (\<lambda>r. (fst r, round_counter (snd r))) (decide kb_fresh obs_occupant 0 0)
     = Some (Inr ATTACK, 0)"
  by code_simp

text \<open>
  C6, counterexample. The next queued action is a step into the sea. \<^verbatim>\<open>choice\<close> empties the
  queue and turns right; it does not look for the potion one step to the left, which the
  same call on the emptied queue does (it turns left and queues the step).
\<close>

theorem stale_step_no_reevaluation_counterexample:
  "choice kb_stale 0 0
     = Some (Inr TURN_RIGHT, kb_stale\<lparr>actionsToMake := [], actionsTarget := None\<rparr>)
   \<and> choice (kb_stale\<lparr>actionsToMake := [], actionsTarget := None\<rparr>) 0 0
     = Some (Inr TURN_LEFT, kb_stale\<lparr>actionsToMake := [STEP_FORWARD], actionsTarget := Some (0, 1)\<rparr>)"
  by code_simp

text \<open>
  C7, counterexample. A search from the root (2, 1) while the champion stands at (1, 1)
  finds nothing and returns the champion's position, not the root.
\<close>

theorem miss_returns_position_counterexample:
  "shortestPath map_stale (2, 1) (TCoords (7, 7)) (Some 16) [] = Some (Inr ([], Some (1, 1)))"
  by code_simp

text \<open>
  C10, counterexample. With the potion under the champion (found at the root) and with no
  potion on the map (not found) \<^verbatim>\<open>findTarget\<close> returns the same pair.
\<close>

theorem empty_path_hit_and_miss_counterexample:
  "findTarget map_potion_here (TConsumableDescription ''potion'') (Some 16)
     = Some (Inr ([], Some (1, 1)))
   \<and> findTarget map_no_potion (TConsumableDescription ''potion'') (Some 16)
     = Some (Inr ([], Some (1, 1)))"
  by code_simp




text \<open>
  C4 (as the code has it). Under the same conditions on the map and the observation, while
  the round counter is below 3 and the tile ahead is known and has no occupant, \<^verbatim>\<open>decide\<close>
  returns TURN_RIGHT and adds one to the round counter. (With an occupant ahead the answer is
  ATTACK, by the theorem of C5, and the counter is not changed.)
\<close>

theorem forced_scan_when_no_occupant:
  assumes "mapBase kb = Some m0" and "grid_ok m0" and "isInMap m0 (ck_position k)"
    and "KnowledgeBase_update kb k = (None, kb1)"
    and "front_tile kb1 = Inr (Some t)" and "attr_character t = None"
    and "round_counter kb < 3"
  shows "decide kb k rnd rnd' = Some (Inr TURN_RIGHT, kb1\<lparr>round_counter := round_counter kb + 1\<rparr>)"
proof -
  note r = decide_ready[OF assms(1-5)]
  from r(1) obtain m1 where m1: "mapBase kb1 = Some m1" "map_ok m1" by blast
  have rc: "round_counter kb1 < 3" using r(3) assms(7) by simp
  from choice_scan[OF m1 assms(5,6) rc, of rnd rnd'] r(2) r(3) show ?thesis by simp
qed

theorem forced_scan_when_no_occupant_witness:
  "mapBase kb_fresh = Some arena2_map \<and> grid_ok arena2_map
   \<and> isInMap arena2_map (ck_position obs_free)
   \<and> KnowledgeBase_update kb_fresh obs_free = (None, kb_seen_free)
   \<and> front_tile kb_seen_free = Inr (Some seen_land) \<and> attr_character seen_land = None
   \<and> round_counter kb_fresh < 3
   \<and> decide kb_fresh obs_free 0 0 = Some (Inr TURN_RIGHT, kb_seen_free\<lparr>round_counter := 1\<rparr>)"
proof -
  have h1: "mapBase kb_fresh = Some arena2_map" by code_simp
  have h2: "grid_ok arena2_map" by code_simp
  have h3: "isInMap arena2_map (ck_position obs_free)" by code_simp
  have h4: "KnowledgeBase_update kb_fresh obs_free = (None, kb_seen_free)" by code_simp
  have h5: "front_tile kb_seen_free = Inr (Some seen_land)" by code_simp
  have h6: "attr_character seen_land = None" by (simp add: seen_land_def)
  have h7: "round_counter kb_fresh < 3" by code_simp
  have h8: "round_counter kb_fresh = 0" by code_simp
  from forced_scan_when_no_occupant[OF h1 h2 h3 h4 h5 h6 h7, of 0 0] h1 h2 h3 h4 h5 h6 h7 h8
  show ?thesis by simp
qed

text \<open>
  C6 (as the code has it). Under the same conditions, past the forced scan, with no occupant
  ahead: when the next queued action is a step forward and the tile ahead is impassable or in
  the mist, \<^verbatim>\<open>decide\<close> empties the queue, clears the queued goal and returns at once what
  \<^verbatim>\<open>checkPossibleAction\<close> gives for the tile ahead (TURN_RIGHT on an impassable tile, else
  one of turn left, turn right and step forward drawn at random). The potion and the menhir
  are not looked for again in that call.
\<close>

theorem stale_step_falls_back_locally:
  assumes "mapBase kb = Some m0" and "grid_ok m0" and "isInMap m0 (ck_position k)"
    and "KnowledgeBase_update kb k = (None, kb1)"
    and "front_tile kb1 = Inr (Some t)" and "attr_character t = None"
    and "\<not> round_counter kb < 3" and "actionsToMake kb = STEP_FORWARD # rest"
    and "\<not> tilePassable (Some t) \<or> ''mist'' \<in> set (attr_effects t)"
  shows "decide kb k rnd rnd'
           = Some (Inr (checkPossibleAction (Some t) rnd), kb1\<lparr>actionsToMake := [], actionsTarget := None\<rparr>)"
proof -
  note r = decide_ready[OF assms(1-5)]
  from r(1) obtain m1 where m1: "mapBase kb1 = Some m1" "map_ok m1" by blast
  have rc: "\<not> round_counter kb1 < 3" using r(3) assms(7) by simp
  have q: "actionsToMake kb1 = STEP_FORWARD # rest" using r(3) assms(8) by simp
  then have qn: "actionsToMake kb1 \<noteq> []" by simp
  from choice_follow[OF m1 assms(5,6) rc qn, of rnd rnd'] followTarget_stale[OF q assms(5,9), of rnd] r(2)
  show ?thesis by simp
qed

theorem stale_step_falls_back_locally_witness:
  "mapBase kb_stale = Some map_stale \<and> grid_ok map_stale
   \<and> isInMap map_stale (ck_position obs_sea_ahead)
   \<and> KnowledgeBase_update kb_stale obs_sea_ahead = (None, kb_stale_seen)
   \<and> front_tile kb_stale_seen = Inr (Some (TileDescription ''sea'' None None None []))
   \<and> \<not> round_counter kb_stale < 3 \<and> actionsToMake kb_stale = [STEP_FORWARD, STEP_FORWARD]
   \<and> \<not> tilePassable (Some (TileDescription ''sea'' None None None []))
   \<and> decide kb_stale obs_sea_ahead 0 0
       = Some (Inr TURN_RIGHT, kb_stale_seen\<lparr>actionsToMake := [], actionsTarget := None\<rparr>)"
proof -
  let ?t = "TileDescription ''sea'' None None None []"
  have h1: "mapBase kb_stale = Some map_stale" by (simp add: kb_stale_def)
  have h2: "grid_ok map_stale" by code_simp
  have h3: "isInMap map_stale (ck_position obs_sea_ahead)" by code_simp
  have h4: "KnowledgeBase_update kb_stale obs_sea_ahead = (None, kb_stale_seen)" by code_simp
  have h5: "front_tile kb_stale_seen = Inr (Some ?t)" by code_simp
  have h6: "attr_character ?t = None" by simp
  have h7: "\<not> round_counter kb_stale < 3" by (simp add: kb_stale_def)
  have h8: "actionsToMake kb_stale = STEP_FORWARD # [STEP_FORWARD]" by (simp add: kb_stale_def)
  have h9: "\<not> tilePassable (Some ?t) \<or> ''mist'' \<in> set (attr_effects ?t)" by simp
  have c: "checkPossibleAction (Some ?t) 0 = TURN_RIGHT" by (simp add: checkPossibleAction_def)
  from stale_step_falls_back_locally[OF h1 h2 h3 h4 h5 h6 h7 h8 h9, of 0 0] c h1 h2 h3 h4 h5 h7 h8
  show ?thesis by simp
qed

text \<open>
  C7 (as the code has it). The root is a known tile inside a map of the right shape, the
  champion's description is known and the test of the goal raises on no known tile. Then
  \<^verbatim>\<open>shortestPath\<close> with the radius \<open>rad\<close> returns; it pops at most \<open>rad + 1\<close> cells, each
  of them reached from the root by a walk of at most \<open>rad\<close> steps; and when none of the
  cells popped satisfies the goal, the result is the empty list of actions with
  \<^verbatim>\<open>self.position\<close>, the champion's position (which is the root in \<^verbatim>\<open>findTarget\<close>).
\<close>

theorem radius_bounds_search:
  assumes "grid_ok m" and "isInMap m root" and "cell_at (mapGrid m) root \<noteq> None"
    and "description m \<noteq> None" and "total_target m tg"
  shows "\<exists>res popped.
           shortestPath m root tg (Some rad) mode = Some (Inr res)
         \<and> expanded m root tg (Some rad) mode = Some popped
         \<and> int (length popped) \<le> max 0 (rad + 1)
         \<and> (\<forall>c \<in> set popped. reach_within m mode root rad c)
         \<and> ((\<forall>c \<in> set popped. targetFound m c tg \<noteq> Inr True) \<longrightarrow> res = ([], position m))"
proof -
  let ?V = "cell_put (map (map fresh_cell) (mapGrid m)) root (VParent root)"
  from assms(4) obtain dsc where dsc: "description m = Some dsc" by auto
  have inv: "tree_inv m mode root ?V (\<lambda>c. 0)" by (rule tree_inv_init[OF assms(1,2)])
  have rv: "is_visited m ?V root" by (rule root_visited_init[OF assms(1,2)])
  with assms(3) have qs: "\<forall>q \<in> set [root]. is_visited m ?V q \<and> cell_at (mapGrid m) q \<noteq> None"
    by simp
  from loop_returns[OF assms(1) dsc assms(5) inv qs, of "Some rad" 0 "[]"] obtain res popped where
    l: "shortestPath_loop m root tg (Some rad) mode ?V [root] 0 [] = Some (Inr res, popped)" by blast
  have tr: "shortestPath_trace m root tg (Some rad) mode = Some (Inr res, popped)"
    using l by (simp add: shortestPath_trace_start[OF assms(1,2)])
  have qd: "\<forall>q \<in> set [root]. is_visited m ?V q \<and> int ((\<lambda>c. 0::nat) q) \<le> 0" using rv by simp
  from loop_layers[OF assms(1) inv qd _ _ refl l]
  have lay: "(\<forall>c \<in> set popped. reach_within m mode root rad c) \<and> int (length popped) \<le> max 0 (rad + 1)"
    by simp
  have miss: "(\<forall>c \<in> set popped. targetFound m c tg \<noteq> Inr True) \<longrightarrow> res = ([], position m)"
    using loop_miss[OF l] by blast
  from tr lay miss show ?thesis
    by (auto simp: shortestPath_def expanded_def)
qed

theorem radius_bounds_search_witness:
  "grid_ok map_stale \<and> isInMap map_stale (2, 1) \<and> cell_at (mapGrid map_stale) (2, 1) \<noteq> None
   \<and> description map_stale \<noteq> None
   \<and> shortestPath map_stale (2, 1) (TCoords (7, 7)) (Some 1) [] = Some (Inr ([], Some (1, 1)))
   \<and> expanded map_stale (2, 1) (TCoords (7, 7)) (Some 1) [] = Some [(2, 1), (1, 1)]
   \<and> reach_within map_stale [] (2, 1) 1 (1, 1)"
proof -
  have h1: "grid_ok map_stale" by code_simp
  have h2: "isInMap map_stale (2, 1)" by code_simp
  have h3: "cell_at (mapGrid map_stale) (2, 1) \<noteq> None" by code_simp
  have h4: "description map_stale \<noteq> None" by (simp add: map_stale_def)
  have h5: "total_target map_stale (TCoords (7, 7))" by (rule total_coords[OF h1])
  have e1: "shortestPath map_stale (2, 1) (TCoords (7, 7)) (Some 1) [] = Some (Inr ([], Some (1, 1)))"
    by code_simp
  have e2: "expanded map_stale (2, 1) (TCoords (7, 7)) (Some 1) [] = Some [(2, 1), (1, 1)]"
    by code_simp
  from radius_bounds_search[OF h1 h2 h3 h4 h5, of 1 "[]"] e2
  have "reach_within map_stale [] (2, 1) 1 (1, 1)" by auto
  with h1 h2 h3 h4 e1 e2 show ?thesis by simp
qed

text \<open>
  C10 (as the code has it). \<^verbatim>\<open>shortestPath\<close> returns the empty list of actions in two cases:
  with the root, when the root itself satisfies the goal, and with the champion's position,
  when no cell that the search pops satisfies it. The two results are equal exactly when
  the root of the search is the champion's position. \<^verbatim>\<open>findTarget\<close> always searches from
  that position, so it returns the same pair in both cases and its caller cannot tell them
  apart.
\<close>

theorem empty_path_ambiguous:
  assumes "grid_ok m" and "isInMap m root" and "description m \<noteq> None"
    and "targetFound m root tg = Inr True" and "within_radius radius 0"
    and "grid_ok m'" and "isInMap m' root" and "cell_at (mapGrid m') root \<noteq> None"
    and "description m' \<noteq> None" and "total_target m' tg"
    and "expanded m' root tg radius mode = Some popped"
    and "\<forall>c \<in> set popped. targetFound m' c tg \<noteq> Inr True"
  shows "shortestPath m root tg radius mode = Some (Inr ([], Some root))
       \<and> shortestPath m' root tg radius mode = Some (Inr ([], position m'))
       \<and> ((shortestPath m root tg radius mode = shortestPath m' root tg radius mode)
            = (position m' = Some root))
       \<and> (mode = [] \<and> position m = Some root \<and> position m' = Some root \<longrightarrow>
            findTarget m tg radius = Some (Inr ([], Some root))
          \<and> findTarget m' tg radius = Some (Inr ([], Some root)))"
proof -
  let ?V = "cell_put (map (map fresh_cell) (mapGrid m)) root (VParent root)"
  note g = assms(1) and r = assms(2)
  from assms(3) obtain dsc where dsc: "description m = Some dsc" by auto
  have inv: "tree_inv m mode root ?V (\<lambda>c. 0)" by (rule tree_inv_init[OF g r])
  have rv: "is_visited m ?V root" by (rule root_visited_init[OF g r])
  from hit_result[OF inv rv dsc, of "[]"] obtain acts where
    hr: "(case walk ?V root [root] of
             None \<Rightarrow> None
           | Some (Inl e) \<Rightarrow> Some (Inl e, [] @ [root])
           | Some (Inr path) \<Rightarrow>
               Some (ebind (getActions m root (rev (butlast path)))
                       (\<lambda>acts. Inr (acts, Some root)), [] @ [root]))
         = Some (Inr (acts, Some root), [] @ [root])" and la: "length acts \<le> 3 * 0"
    by auto
  from la have "acts = []" by simp
  with hr loop_unfold_Cons[OF assms(5), of m root tg mode ?V root "[]" "[]"] assms(4)
  have "shortestPath_loop m root tg radius mode ?V [root] 0 [] = Some (Inr ([], Some root), [root])"
    by simp
  then have first: "shortestPath m root tg radius mode = Some (Inr ([], Some root))"
    by (simp add: shortestPath_def shortestPath_trace_start[OF g r])
  note g' = assms(6) and r' = assms(7)
  from assms(9) obtain dsc' where dsc': "description m' = Some dsc'" by auto
  from shortestPath_returns[OF g' r' assms(8) dsc' assms(10), of radius mode] obtain res where
    fr: "shortestPath m' root tg radius mode = Some (Inr res)" by blast
  from fr assms(11) have "shortestPath_trace m' root tg radius mode = Some (Inr res, popped)"
    by (auto simp: shortestPath_def expanded_def)
  then have "shortestPath_loop m' root tg radius mode
               (cell_put (map (map fresh_cell) (mapGrid m')) root (VParent root)) [root] 0 []
             = Some (Inr res, popped)"
    by (simp add: shortestPath_trace_start[OF g' r'])
  from loop_miss[OF this assms(12)] have "res = ([], position m')" .
  with fr have second: "shortestPath m' root tg radius mode = Some (Inr ([], position m'))"
    by simp
  have third: "(shortestPath m root tg radius mode = shortestPath m' root tg radius mode)
            = (position m' = Some root)"
    unfolding first second by auto
  have fourth: "mode = [] \<and> position m = Some root \<and> position m' = Some root \<longrightarrow>
            findTarget m tg radius = Some (Inr ([], Some root))
          \<and> findTarget m' tg radius = Some (Inr ([], Some root))"
    using first second by (auto simp: findTarget_def)
  from first second third fourth show ?thesis by blast
qed

theorem empty_path_ambiguous_witness:
  "grid_ok map_potion_here \<and> isInMap map_potion_here (1, 1)
   \<and> description map_potion_here \<noteq> None \<and> position map_potion_here = Some (1, 1)
   \<and> targetFound map_potion_here (1, 1) (TConsumableDescription ''potion'') = Inr True
   \<and> within_radius (Some 16) 0
   \<and> grid_ok map_no_potion \<and> isInMap map_no_potion (1, 1)
   \<and> cell_at (mapGrid map_no_potion) (1, 1) \<noteq> None
   \<and> description map_no_potion \<noteq> None \<and> position map_no_potion = Some (1, 1)
   \<and> expanded map_no_potion (1, 1) (TConsumableDescription ''potion'') (Some 16) []
        = Some [(1, 1), (0, 1)]
   \<and> shortestPath map_potion_here (1, 1) (TConsumableDescription ''potion'') (Some 16) []
        = shortestPath map_no_potion (1, 1) (TConsumableDescription ''potion'') (Some 16) []
   \<and> findTarget map_potion_here (TConsumableDescription ''potion'') (Some 16)
        = Some (Inr ([], Some (1, 1)))
   \<and> findTarget map_no_potion (TConsumableDescription ''potion'') (Some 16)
        = Some (Inr ([], Some (1, 1)))"
proof -
  let ?tg = "TConsumableDescription ''potion''"
  have h1: "grid_ok map_potion_here" by code_simp
  have h2: "isInMap map_potion_here (1, 1)" by code_simp
  have h3: "description map_potion_here \<noteq> None" by code_simp
  have p: "position map_potion_here = Some (1, 1)" by code_simp
  have h4: "targetFound map_potion_here (1, 1) ?tg = Inr True" by code_simp
  have h5: "within_radius (Some 16) 0" by (simp add: within_radius_def)
  have h6: "grid_ok map_no_potion" by code_simp
  have h7: "isInMap map_no_potion (1, 1)" by code_simp
  have h8: "cell_at (mapGrid map_no_potion) (1, 1) \<noteq> None" by code_simp
  have h9: "description map_no_potion \<noteq> None" by code_simp
  have p': "position map_no_potion = Some (1, 1)" by code_simp
  have h10: "total_target map_no_potion ?tg" using h6 by (intro total_consumable)
  have h11: "expanded map_no_potion (1, 1) ?tg (Some 16) [] = Some [(1, 1), (0, 1)]"
    by code_simp
  have h12: "\<forall>c \<in> set [(1, 1), (0, 1)]. targetFound map_no_potion c ?tg \<noteq> Inr True"
    by code_simp
  from empty_path_ambiguous[OF h1 h2 h3 h4 h5 h6 h7 h8 h9 h10 h11 h12] p p'
  have "shortestPath map_potion_here (1, 1) ?tg (Some 16) []
          = shortestPath map_no_potion (1, 1) ?tg (Some 16) []
      \<and> findTarget map_potion_here ?tg (Some 16) = Some (Inr ([], Some (1, 1)))
      \<and> findTarget map_no_potion ?tg (Some 16) = Some (Inr ([], Some (1, 1)))"
    by simp
  with h1 h2 h3 p h4 h5 h6 h7 h8 h9 p' h11 show ?thesis by simp
qed




end
